theory Spec2Isabelle
  imports Main "HOL-Library.Sublist" "HOL-Library.AList" "HOL-Library.Multiset"
begin

section \<open>Values and errors\<close>

text \<open>
  The request-governance layer of the stock-research dashboard lives in three
  classes: \<^verbatim>\<open>RateLimiter\<close>, \<^verbatim>\<open>CacheService\<close> and \<^verbatim>\<open>AlphaVantageService\<close>.
  Time is the value of \<^verbatim>\<open>Date.now()\<close>, an integer number of milliseconds. A
  function of the model stands for one synchronous call and takes the clock
  value \<open>now\<close> that the call reads.

  A value returned by \<^verbatim>\<open>response.json()\<close> is a parsed JSON value. An object is an
  association list of its properties; the value of a number only matters through
  the test for zero.
\<close>

datatype json =
    JNull
  | JBool bool
  | JNum int
  | JStr string
  | JArr "json list"
  | JObj "(string \<times> json) list"

text \<open>Why \<^verbatim>\<open>canMakeRequest\<close> refuses: the three \<^verbatim>\<open>reason\<close> strings of the source.\<close>

datatype reason =
    DailyLimitReached
  | PerMinuteLimitReached
  | WaitingSeconds int

text \<open>Every \<^verbatim>\<open>throw\<close> of the three classes, and what a promise can be rejected with.\<close>

datatype error =
    ReasonError reason
  | RateLimiterTimeout
  | AlphaVantageApiError string
  | InvalidSymbolOrApiError json
  | ApiRateLimitExceeded json
  | ApiLimitReached json
  | NoQuoteData string
  | TypeError
  | SyntaxError
  | NetworkError string
  | QuotaExceededError

section \<open>JavaScript helpers\<close>

text \<open>Truthiness of a JSON value, and of a property that may be \<^verbatim>\<open>undefined\<close>.\<close>

fun truthy :: "json \<Rightarrow> bool" where
  "truthy JNull = False"
| "truthy (JBool b) = b"
| "truthy (JNum n) = (n \<noteq> 0)"
| "truthy (JStr s) = (s \<noteq> [])"
| "truthy (JArr xs) = True"
| "truthy (JObj kvs) = True"

fun truthy_opt :: "json option \<Rightarrow> bool" where
  "truthy_opt None = False"
| "truthy_opt (Some v) = truthy v"

text \<open>
  \<^verbatim>\<open>v[key]\<close> for one of the property names the facade reads: a \<^verbatim>\<open>TypeError\<close> on
  \<^verbatim>\<open>null\<close>, the property of an object, \<^verbatim>\<open>undefined\<close> on everything else.
\<close>

fun get_prop :: "json \<Rightarrow> string \<Rightarrow> error + json option" where
  "get_prop JNull k = Inl TypeError"
| "get_prop (JObj kvs) k = Inr (map_of kvs k)"
| "get_prop v k = Inr None"

text \<open>\<^verbatim>\<open>s.startsWith(p)\<close> and \<^verbatim>\<open>s.includes(sub)\<close>.\<close>

definition startsWith :: "string \<Rightarrow> string \<Rightarrow> bool" where
  "startsWith s p = prefix p s"

fun str_includes :: "string \<Rightarrow> string \<Rightarrow> bool" where
  "str_includes [] sub = (sub = [])"
| "str_includes (c # cs) sub = (prefix sub (c # cs) \<or> str_includes cs sub)"

text \<open>\<^verbatim>\<open>s.replace(pat, '')\<close>: the first occurrence of \<open>pat\<close> is removed.\<close>

fun replace_first :: "string \<Rightarrow> string \<Rightarrow> string" where
  "replace_first pat [] = []"
| "replace_first pat (c # cs) =
     (if prefix pat (c # cs) then drop (length pat) (c # cs)
      else c # replace_first pat cs)"

text \<open>
  \<^verbatim>\<open>s.toUpperCase()\<close> belongs to the language, not to the repository: the facade
  below takes it as a parameter \<open>toUpperCase\<close>. On ASCII text it is this function.
\<close>

definition upper_char :: "char \<Rightarrow> char" where
  "upper_char c =
     (let n = (of_char c :: nat)
      in if 97 \<le> n \<and> n \<le> 122 then char_of (n - 32) else c)"

definition ascii_toUpperCase :: "string \<Rightarrow> string" where
  "ascii_toUpperCase s = map upper_char s"

section \<open>CacheService\<close>

record 'a CacheEntry =
  data :: 'a
  timestamp :: int
  expiresAt :: int

datatype CacheType = QUOTE | DAILY_PRICES | OVERVIEW | FINANCIALS

fun CACHE_DURATIONS :: "CacheType \<Rightarrow> int" where
  "CACHE_DURATIONS QUOTE = 60 * 1000"
| "CACHE_DURATIONS DAILY_PRICES = 60 * 60 * 1000"
| "CACHE_DURATIONS OVERVIEW = 24 * 60 * 60 * 1000"
| "CACHE_DURATIONS FINANCIALS = 24 * 60 * 60 * 1000"

text \<open>
  What \<^verbatim>\<open>localStorage\<close> holds under a key, seen through \<^verbatim>\<open>JSON.parse\<close>: the text of an
  entry (\<^verbatim>\<open>JSON.parse (JSON.stringify entry)\<close> gives the entry back), a text that is
  empty or parses to a falsy value, or a text on which \<^verbatim>\<open>JSON.parse\<close> throws.
\<close>

datatype 'a stored =
    StoredEntry "'a CacheEntry"
  | StoredFalsy
  | StoredInvalid

text \<open>
  Both tiers keep their keys in insertion order, as a \<^verbatim>\<open>Map\<close> does: an association
  list with distinct keys, read with \<open>map_of\<close>.
\<close>

record 'a cache =
  memoryCache :: "(string \<times> 'a CacheEntry) list"
  localStorage :: "(string \<times> 'a stored) list"

definition getStorageKey :: "string \<Rightarrow> string" where
  "getStorageKey key = ''av_cache_'' @ key"

definition delete_entry :: "string \<Rightarrow> 'a cache \<Rightarrow> 'a cache" where
  "delete_entry key c =
     c\<lparr>memoryCache := AList.delete key (memoryCache c),
       localStorage := AList.delete (getStorageKey key) (localStorage c)\<rparr>"

text \<open>One round of the \<^verbatim>\<open>forEach\<close> of \<^verbatim>\<open>cleanOldEntries\<close>, on one storage key.\<close>

definition clean_key :: "int \<Rightarrow> string \<Rightarrow> (string \<times> 'a stored) list \<Rightarrow> (string \<times> 'a stored) list" where
  "clean_key now k ls =
     (case map_of ls k of
        None \<Rightarrow> ls
      | Some StoredFalsy \<Rightarrow> ls
      | Some (StoredEntry e) \<Rightarrow> if now > expiresAt e then AList.delete k ls else ls
      | Some StoredInvalid \<Rightarrow> AList.delete k ls)"

definition cleanOldEntries :: "int \<Rightarrow> 'a cache \<Rightarrow> 'a cache" where
  "cleanOldEntries now c =
     c\<lparr>localStorage :=
         fold (clean_key now)
           (filter (\<lambda>k. startsWith k ''av_cache_'') (map fst (localStorage c)))
           (localStorage c)\<rparr>"

text \<open>
  \<^verbatim>\<open>set(key, data, type)\<close>. \<open>ok\<close> says whether \<^verbatim>\<open>localStorage.setItem\<close> succeeds; when it
  throws (the quota is exceeded) the memory write stays and the sweep runs.
\<close>

definition cache_set :: "string \<Rightarrow> 'a \<Rightarrow> CacheType \<Rightarrow> int \<Rightarrow> bool \<Rightarrow> 'a cache \<Rightarrow> 'a cache" where
  "cache_set key d ty now ok c =
     (let duration = CACHE_DURATIONS ty;
          entry = \<lparr>data = d, timestamp = now, expiresAt = now + duration\<rparr>;
          c1 = c\<lparr>memoryCache := AList.update key entry (memoryCache c)\<rparr>
      in if ok
         then c1\<lparr>localStorage :=
                  AList.update (getStorageKey key) (StoredEntry entry) (localStorage c1)\<rparr>
         else cleanOldEntries now c1)"

text \<open>The end of \<^verbatim>\<open>get\<close>, once an entry has been found in one of the tiers.\<close>

definition check_expiry :: "string \<Rightarrow> int \<Rightarrow> 'a CacheEntry \<Rightarrow> 'a cache \<Rightarrow> 'a option \<times> 'a cache" where
  "check_expiry key now entry c =
     (if now > expiresAt entry then (None, delete_entry key c)
      else (Some (data entry), c))"

text \<open>\<^verbatim>\<open>get(key)\<close>: \<open>None\<close> is the \<^verbatim>\<open>null\<close> of the source.\<close>

definition cache_get :: "string \<Rightarrow> int \<Rightarrow> 'a cache \<Rightarrow> 'a option \<times> 'a cache" where
  "cache_get key now c =
     (case map_of (memoryCache c) key of
        Some entry \<Rightarrow> check_expiry key now entry c
      | None \<Rightarrow>
          (case map_of (localStorage c) (getStorageKey key) of
             None \<Rightarrow> (None, c)
           | Some StoredFalsy \<Rightarrow> (None, c)
           | Some StoredInvalid \<Rightarrow> (None, c)
           | Some (StoredEntry entry) \<Rightarrow>
               check_expiry key now entry
                 (c\<lparr>memoryCache := AList.update key entry (memoryCache c)\<rparr>)))"

definition cache_clear :: "'a cache \<Rightarrow> 'a cache" where
  "cache_clear c =
     c\<lparr>memoryCache := [],
       localStorage := filter (\<lambda>(k, v). \<not> startsWith k ''av_cache_'') (localStorage c)\<rparr>"

text \<open>
  \<^verbatim>\<open>invalidateSymbol(symbol)\<close>: the keys of the memory tier that include the symbol,
  then the storage keys that start with the namespace and include the symbol, the
  namespace taken off; each is deleted from both tiers.
\<close>

definition keysToDelete :: "string \<Rightarrow> 'a cache \<Rightarrow> string list" where
  "keysToDelete symbol c =
     filter (\<lambda>key. str_includes key symbol) (map fst (memoryCache c)) @
     map (replace_first ''av_cache_'')
       (filter (\<lambda>key. startsWith key ''av_cache_'' \<and> str_includes key symbol)
          (map fst (localStorage c)))"

definition invalidateSymbol :: "string \<Rightarrow> 'a cache \<Rightarrow> 'a cache" where
  "invalidateSymbol symbol c = fold delete_entry (keysToDelete symbol c) c"

text \<open>A sequence of calls on the cache, each with the clock value it reads.\<close>

datatype 'a cache_op =
    Set string 'a CacheType int bool
  | Get string int

fun cache_step :: "'a cache_op \<Rightarrow> 'a cache \<Rightarrow> 'a cache" where
  "cache_step (Set key d ty now ok) c = cache_set key d ty now ok c"
| "cache_step (Get key now) c = snd (cache_get key now c)"

definition cache_run :: "'a cache_op list \<Rightarrow> 'a cache \<Rightarrow> 'a cache" where
  "cache_run ops c = fold cache_step ops c"

fun sets_key :: "string \<Rightarrow> 'a cache_op \<Rightarrow> bool" where
  "sets_key k (Set k' d ty now ok) = (k' = k)"
| "sets_key k (Get k' now) = False"

fun reads_after :: "string \<Rightarrow> int \<Rightarrow> 'a cache_op \<Rightarrow> bool" where
  "reads_after k t (Set k' d ty now ok) = False"
| "reads_after k t (Get k' now) = (k' = k \<and> t < now)"

text \<open>
  The key holds a given entry in the memory tier, or nothing in either tier.
\<close>

definition entry_or_gone :: "string \<Rightarrow> 'a CacheEntry \<Rightarrow> 'a cache \<Rightarrow> bool" where
  "entry_or_gone k e c \<longleftrightarrow>
     map_of (memoryCache c) k = Some e \<or>
     (map_of (memoryCache c) k = None \<and> map_of (localStorage c) (getStorageKey k) = None)"

section \<open>RateLimiter\<close>

text \<open>
  A queued request. Its \<^verbatim>\<open>execute\<close>, \<^verbatim>\<open>resolve\<close> and \<^verbatim>\<open>reject\<close> closures are not
  data: what \<^verbatim>\<open>execute\<close> gives comes with the event that resumes the drain, and a
  call of \<^verbatim>\<open>resolve\<close> or \<^verbatim>\<open>reject\<close> is an entry of the log \<open>settled\<close>. The source
  builds \<^verbatim>\<open>id\<close> from the clock and a random number; here it is the number of the
  request in arrival order.
\<close>

record QueuedRequest =
  req_id :: nat
  priority :: int
  req_timestamp :: int

definition MAX_REQUESTS_PER_MINUTE :: nat where
  "MAX_REQUESTS_PER_MINUTE = 5"

definition INTERVAL_MS :: int where
  "INTERVAL_MS = 60 * 1000"

definition MIN_REQUEST_SPACING_MS :: int where
  "MIN_REQUEST_SPACING_MS = 12500"

definition MAX_DAILY_REQUESTS :: int where
  "MAX_DAILY_REQUESTS = 500"

definition maxAttempts :: nat where
  "maxAttempts = 120"

text \<open>
  \<^verbatim>\<open>processQueue\<close> and \<^verbatim>\<open>waitUntilCanRequest\<close> are \<^verbatim>\<open>async\<close>: a call of \<^verbatim>\<open>processQueue\<close>
  that has entered its loop is suspended at one of three \<^verbatim>\<open>await\<close>s, holding the
  request it has shifted off the queue:
  \<^item> \<open>AtTimer r attempts waitTime\<close>: inside \<^verbatim>\<open>waitUntilCanRequest\<close>, at the
    \<^verbatim>\<open>setTimeout\<close> of \<open>waitTime\<close> ms, \<open>attempts\<close> not yet incremented;
  \<^item> \<open>AtAdmission r res\<close>: at \<^verbatim>\<open>await this.waitUntilCanRequest()\<close>, whose promise has
    settled: \<open>None\<close> when it returned, \<open>Some e\<close> when it threw \<open>e\<close>;
  \<^item> \<open>AtExecute r\<close>: at \<^verbatim>\<open>await request.execute()\<close>.
\<close>

datatype drain =
    AtTimer QueuedRequest nat int
  | AtAdmission QueuedRequest "error option"
  | AtExecute QueuedRequest

fun drain_request :: "drain \<Rightarrow> QueuedRequest" where
  "drain_request (AtTimer r a ms) = r"
| "drain_request (AtAdmission r res) = r"
| "drain_request (AtExecute r) = r"

text \<open>
  The fields of the class, the value \<open>av_daily_count\<close> kept in \<^verbatim>\<open>localStorage\<close>, the
  suspended calls of \<^verbatim>\<open>processQueue\<close>, and five logs that the source does not keep:
  the next request number, the requests in the order they were shifted off the
  queue, the timestamps pushed on \<^verbatim>\<open>requestHistory\<close> (never pruned), the
  settled futures with their outcome, and the requests that \<^verbatim>\<open>clearQueue\<close> took
  out of the queue.
\<close>

record 'v limiter =
  queue :: "QueuedRequest list"
  isProcessing :: bool
  requestHistory :: "int list"
  dailyCount :: int
  dailyResetTime :: int
  av_daily_count :: int
  drains :: "drain list"
  nextId :: nat
  popped :: "QueuedRequest list"
  admitted :: "int list"
  settled :: "(nat \<times> (error + 'v)) list"
  discarded :: "QueuedRequest list"

text \<open>
  The state after the constructor: \<open>dc\<close> is what \<^verbatim>\<open>loadDailyCount\<close> read and \<open>rt\<close>
  what \<^verbatim>\<open>getNextDayTimestamp\<close> returned (the next local midnight).
\<close>

definition init :: "int \<Rightarrow> int \<Rightarrow> 'v limiter" where
  "init dc rt =
     \<lparr>queue = [], isProcessing = False, requestHistory = [], dailyCount = dc,
      dailyResetTime = rt, av_daily_count = dc, drains = [], nextId = 0,
      popped = [], admitted = [], settled = [], discarded = []\<rparr>"

text \<open>\<^verbatim>\<open>checkDailyReset\<close>; \<open>next\<close> is what \<^verbatim>\<open>getNextDayTimestamp\<close> returns at that moment.\<close>

definition checkDailyReset :: "int \<Rightarrow> int \<Rightarrow> 'v limiter \<Rightarrow> 'v limiter" where
  "checkDailyReset now next s =
     (if now \<ge> dailyResetTime s
      then s\<lparr>dailyCount := 0, dailyResetTime := next, av_daily_count := 0\<rparr>
      else s)"

text \<open>
  \<^verbatim>\<open>this.requestHistory[this.requestHistory.length - 1]\<close>, when it is truthy: the
  history is not empty and its last timestamp is not 0.
\<close>

definition lastRequest :: "int list \<Rightarrow> int option" where
  "lastRequest h = (if h = [] then None else if last h = 0 then None else Some (last h))"

text \<open>\<^verbatim>\<open>Math.ceil(x / 1000)\<close> on an integer.\<close>

definition ceil_seconds :: "int \<Rightarrow> int" where
  "ceil_seconds x = - ((- x) div 1000)"

text \<open>\<^verbatim>\<open>canMakeRequest\<close>: \<open>None\<close> is \<^verbatim>\<open>{ allowed: true }\<close>, \<open>Some r\<close> a refusal with its reason.\<close>

definition canMakeRequest :: "int \<Rightarrow> 'v limiter \<Rightarrow> reason option \<times> 'v limiter" where
  "canMakeRequest now s =
     (if dailyCount s \<ge> MAX_DAILY_REQUESTS then (Some DailyLimitReached, s)
      else
        let s1 = s\<lparr>requestHistory :=
                     filter (\<lambda>timestamp. now - timestamp < INTERVAL_MS) (requestHistory s)\<rparr>
        in if length (requestHistory s1) \<ge> MAX_REQUESTS_PER_MINUTE
           then (Some PerMinuteLimitReached, s1)
           else
             (case lastRequest (requestHistory s1) of
                None \<Rightarrow> (None, s1)
              | Some l \<Rightarrow>
                  if now - l < MIN_REQUEST_SPACING_MS
                  then (Some (WaitingSeconds
                          (ceil_seconds (MIN_REQUEST_SPACING_MS - (now - l)))), s1)
                  else (None, s1)))"

text \<open>
  One pass of the loop of \<^verbatim>\<open>waitUntilCanRequest\<close>, from the test of \<open>attempts\<close> to
  the next \<^verbatim>\<open>await\<close>, \<^verbatim>\<open>return\<close> or \<^verbatim>\<open>throw\<close>.
\<close>

datatype wait_result =
    WaitReturn
  | WaitThrow error
  | WaitSleep int

definition waitUntilCanRequest :: "int \<Rightarrow> nat \<Rightarrow> 'v limiter \<Rightarrow> wait_result \<times> 'v limiter" where
  "waitUntilCanRequest now attempts s =
     (if attempts < maxAttempts
      then
        (case canMakeRequest now s of
           (None, s1) \<Rightarrow> (WaitReturn, s1)
         | (Some r, s1) \<Rightarrow>
             if dailyCount s1 \<ge> MAX_DAILY_REQUESTS then (WaitThrow (ReasonError r), s1)
             else
               (case lastRequest (requestHistory s1) of
                  Some l \<Rightarrow> (WaitSleep (max (MIN_REQUEST_SPACING_MS - (now - l)) 1000), s1)
                | None \<Rightarrow> (WaitSleep 1000, s1)))
      else (WaitThrow RateLimiterTimeout, s))"

definition suspend :: "QueuedRequest \<Rightarrow> nat \<Rightarrow> wait_result \<Rightarrow> drain" where
  "suspend r attempts w =
     (case w of
        WaitReturn \<Rightarrow> AtAdmission r None
      | WaitThrow e \<Rightarrow> AtAdmission r (Some e)
      | WaitSleep ms \<Rightarrow> AtTimer r attempts ms)"

text \<open>\<^verbatim>\<open>findIndex\<close>: \<open>None\<close> is the \<open>-1\<close> of the source.\<close>

fun findIndex :: "('a \<Rightarrow> bool) \<Rightarrow> 'a list \<Rightarrow> nat option" where
  "findIndex P [] = None"
| "findIndex P (x # xs) = (if P x then Some 0 else map_option Suc (findIndex P xs))"

text \<open>The insertion of \<^verbatim>\<open>enqueue\<close>: \<^verbatim>\<open>push\<close>, or \<^verbatim>\<open>splice(insertIndex, 0, request)\<close>.\<close>

definition insert_request :: "QueuedRequest \<Rightarrow> QueuedRequest list \<Rightarrow> QueuedRequest list" where
  "insert_request request q =
     (case findIndex (\<lambda>x. priority x < priority request) q of
        None \<Rightarrow> q @ [request]
      | Some insertIndex \<Rightarrow> take insertIndex q @ request # drop insertIndex q)"

text \<open>
  The loop of \<^verbatim>\<open>processQueue\<close> from its test \<^verbatim>\<open>this.queue.length > 0\<close> to the next
  \<^verbatim>\<open>await\<close>: \<open>None\<close> when the loop is left and the call ends.
\<close>

definition drain_loop :: "int \<Rightarrow> 'v limiter \<Rightarrow> drain option \<times> 'v limiter" where
  "drain_loop now s =
     (case queue s of
        [] \<Rightarrow> (None, s\<lparr>isProcessing := False\<rparr>)
      | request # rest \<Rightarrow>
          (case waitUntilCanRequest now 0 (s\<lparr>queue := rest, popped := popped s @ [request]\<rparr>) of
             (w, s1) \<Rightarrow> (Some (suspend request 0 w), s1)))"

text \<open>A call of \<^verbatim>\<open>processQueue\<close>, up to its first \<^verbatim>\<open>await\<close>.\<close>

definition processQueue :: "int \<Rightarrow> 'v limiter \<Rightarrow> 'v limiter" where
  "processQueue now s =
     (if isProcessing s \<or> queue s = [] then s
      else
        (case drain_loop now (s\<lparr>isProcessing := True\<rparr>) of
           (None, s1) \<Rightarrow> s1
         | (Some d, s1) \<Rightarrow> s1\<lparr>drains := drains s1 @ [d]\<rparr>))"

definition enqueue :: "int \<Rightarrow> int \<Rightarrow> 'v limiter \<Rightarrow> 'v limiter" where
  "enqueue p now s =
     (let request = \<lparr>req_id = nextId s, priority = p, req_timestamp = now\<rparr>
      in processQueue now
           (s\<lparr>queue := insert_request request (queue s), nextId := Suc (nextId s)\<rparr>))"

text \<open>
  The suspended call number \<open>i\<close> goes round its loop again after settling its
  request: it suspends anew, or ends and leaves the list.
\<close>

definition continue :: "nat \<Rightarrow> int \<Rightarrow> 'v limiter \<Rightarrow> 'v limiter" where
  "continue i now s =
     (case drain_loop now s of
        (None, s1) \<Rightarrow> s1\<lparr>drains := take i (drains s1) @ drop (Suc i) (drains s1)\<rparr>
      | (Some d, s1) \<Rightarrow> s1\<lparr>drains := (drains s1)[i := d]\<rparr>)"

text \<open>
  The suspended call number \<open>i\<close> is resumed at clock value \<open>now\<close>: its timer has
  fired, or the promise it awaits has settled; \<open>outcome\<close> is what
  \<^verbatim>\<open>request.execute()\<close> gave, read when the call was waiting for it.
\<close>

definition resume :: "nat \<Rightarrow> int \<Rightarrow> error + 'v \<Rightarrow> 'v limiter \<Rightarrow> 'v limiter" where
  "resume i now outcome s =
     (if i < length (drains s)
      then
        (case drains s ! i of
           AtTimer r a ms \<Rightarrow>
             (case waitUntilCanRequest now (Suc a) s of
                (w, s1) \<Rightarrow> s1\<lparr>drains := (drains s1)[i := suspend r (Suc a) w]\<rparr>)
         | AtAdmission r None \<Rightarrow>
             s\<lparr>requestHistory := requestHistory s @ [now],
               dailyCount := dailyCount s + 1,
               av_daily_count := dailyCount s + 1,
               admitted := admitted s @ [now],
               drains := (drains s)[i := AtExecute r]\<rparr>
         | AtAdmission r (Some e) \<Rightarrow>
             continue i now (s\<lparr>settled := settled s @ [(req_id r, Inl e)]\<rparr>)
         | AtExecute r \<Rightarrow>
             continue i now (s\<lparr>settled := settled s @ [(req_id r, outcome)]\<rparr>))
      else s)"

text \<open>
  The same resumption at \<open>AtAdmission r None\<close> when
  \<^verbatim>\<open>localStorage.setItem('av_daily_count', ...)\<close> throws because the storage is full:
  the timestamp is pushed and the counter incremented already, the \<^verbatim>\<open>catch\<close> rejects
  the request with that error without executing it, and the loop goes on. At any
  other \<^verbatim>\<open>await\<close> nothing is written, so there the event changes nothing.
\<close>

definition resume_storage_full :: "nat \<Rightarrow> int \<Rightarrow> 'v limiter \<Rightarrow> 'v limiter" where
  "resume_storage_full i now s =
     (if i < length (drains s)
      then
        (case drains s ! i of
           AtAdmission r None \<Rightarrow>
             continue i now
               (s\<lparr>requestHistory := requestHistory s @ [now],
                  dailyCount := dailyCount s + 1,
                  admitted := admitted s @ [now],
                  settled := settled s @ [(req_id r, Inl QuotaExceededError)]\<rparr>)
         | _ \<Rightarrow> s)
      else s)"

record queue_status =
  queueLength :: nat
  dailyUsed :: int
  dailyRemaining :: int
  recentRequests :: nat
  canMakeRequestNow :: bool
  nextResetTime :: int

definition getQueueStatus :: "int \<Rightarrow> 'v limiter \<Rightarrow> queue_status \<times> 'v limiter" where
  "getQueueStatus now s =
     (let s1 = s\<lparr>requestHistory :=
                  filter (\<lambda>timestamp. now - timestamp < INTERVAL_MS) (requestHistory s)\<rparr>
      in case canMakeRequest now s1 of
           (status, s2) \<Rightarrow>
             (\<lparr>queueLength = length (queue s1),
               dailyUsed = dailyCount s1,
               dailyRemaining = MAX_DAILY_REQUESTS - dailyCount s1,
               recentRequests = length (requestHistory s1),
               canMakeRequestNow = (status = None),
               nextResetTime = dailyResetTime s1\<rparr>, s2))"

definition clearQueue :: "'v limiter \<Rightarrow> 'v limiter" where
  "clearQueue s = s\<lparr>queue := [], discarded := discarded s @ queue s\<rparr>"

text \<open>
  What happens to the limiter, one synchronous block at a time: a call of one of
  its methods, the timer of \<^verbatim>\<open>checkDailyReset\<close>, or the resumption of a suspended
  \<^verbatim>\<open>processQueue\<close>. An event is such a block with the clock value it reads; blocks
  are free to interleave in any order.
\<close>

datatype 'v action =
    Enqueue int
  | Resume nat "error + 'v"
  | ResumeStorageFull nat
  | CheckDailyReset int
  | GetQueueStatus
  | ClearQueue

type_synonym 'v event = "int \<times> 'v action"

fun step :: "'v event \<Rightarrow> 'v limiter \<Rightarrow> 'v limiter" where
  "step (now, Enqueue p) s = enqueue p now s"
| "step (now, Resume i outcome) s = resume i now outcome s"
| "step (now, ResumeStorageFull i) s = resume_storage_full i now s"
| "step (now, CheckDailyReset next) s = checkDailyReset now next s"
| "step (now, GetQueueStatus) s = snd (getQueueStatus now s)"
| "step (now, ClearQueue) s = clearQueue s"

definition run :: "'v event list \<Rightarrow> 'v limiter \<Rightarrow> 'v limiter" where
  "run evs s = fold step evs s"

text \<open>The clock never goes back and is positive, as \<^verbatim>\<open>Date.now()\<close> is after 1970.\<close>

definition clock_ok :: "'v event list \<Rightarrow> bool" where
  "clock_ok evs \<longleftrightarrow> sorted (map fst evs) \<and> list_all (\<lambda>e. 0 < fst e) evs"

section \<open>AlphaVantageService\<close>

text \<open>
  What \<^verbatim>\<open>fetch\<close> resolved with: \<^verbatim>\<open>response.ok\<close>, \<^verbatim>\<open>response.statusText\<close> and the value of
  \<^verbatim>\<open>response.json()\<close>, \<open>None\<close> when the body is not JSON and that promise rejects.
\<close>

record http_response =
  ok :: bool
  statusText :: string
  json_body :: "json option"

text \<open>A property that is present and truthy: what \<^verbatim>\<open>if (json[key])\<close> tests.\<close>

definition signal :: "json option \<Rightarrow> json option" where
  "signal p = (case p of None \<Rightarrow> None | Some v \<Rightarrow> if truthy v then Some v else None)"

text \<open>
  The closure that \<^verbatim>\<open>fetchWithRateLimit\<close> enqueues, from the response of \<^verbatim>\<open>fetch\<close> on:
  the status test and the three tests for a vendor error inside the body.
\<close>

definition fetch_action :: "http_response \<Rightarrow> error + json" where
  "fetch_action response =
     (if \<not> ok response then Inl (AlphaVantageApiError (statusText response))
      else
        (case json_body response of
           None \<Rightarrow> Inl SyntaxError
         | Some json \<Rightarrow>
             (case get_prop json ''Error Message'' of
                Inl e \<Rightarrow> Inl e
              | Inr p1 \<Rightarrow>
                  (case signal p1 of
                     Some v \<Rightarrow> Inl (InvalidSymbolOrApiError v)
                   | None \<Rightarrow>
                       (case get_prop json ''Note'' of
                          Inl e \<Rightarrow> Inl e
                        | Inr p2 \<Rightarrow>
                            (case signal p2 of
                               Some v \<Rightarrow> Inl (ApiRateLimitExceeded v)
                             | None \<Rightarrow>
                                 (case get_prop json ''Information'' of
                                    Inl e \<Rightarrow> Inl e
                                  | Inr p3 \<Rightarrow>
                                      (case signal p3 of
                                         Some v \<Rightarrow> Inl (ApiLimitReached v)
                                       | None \<Rightarrow> Inr json))))))))"

text \<open>
  \<^verbatim>\<open>fetchWithRateLimit\<close>. The call is \<^verbatim>\<open>async\<close>: it reads the cache at \<open>now\<close> and, on a
  miss, enqueues the closure and waits. \<open>net\<close> is how that wait ends: \<open>Inl e\<close> when
  the limiter rejects the request or \<^verbatim>\<open>fetch\<close> itself fails, \<open>Inr response\<close> when
  the closure gets a response; the cache is then written at \<open>now'\<close>, \<open>ok'\<close> saying
  whether \<^verbatim>\<open>localStorage.setItem\<close> succeeds. The result comes with the cache and
  with whether a request was enqueued.
\<close>

definition fetchWithRateLimit ::
  "string \<Rightarrow> CacheType \<Rightarrow> int \<Rightarrow> error + http_response \<Rightarrow> int \<Rightarrow> bool \<Rightarrow> json cache
     \<Rightarrow> (error + json) \<times> json cache \<times> bool" where
  "fetchWithRateLimit cacheKey cacheType now net now' ok' c =
     (case cache_get cacheKey now c of
        (cached, c1) \<Rightarrow>
          (case signal cached of
             Some d \<Rightarrow> (Inr d, c1, False)
           | None \<Rightarrow>
               (case (case net of Inl e \<Rightarrow> Inl e | Inr response \<Rightarrow> fetch_action response) of
                  Inl e \<Rightarrow> (Inl e, c1, True)
                | Inr d \<Rightarrow> (Inr d, cache_set cacheKey d cacheType now' ok' c1, True))))"

text \<open>
  The end of \<^verbatim>\<open>getQuote\<close>. The conversions \<^verbatim>\<open>parseFloat\<close> and \<^verbatim>\<open>parseInt\<close> are left out:
  a success gives the \<^verbatim>\<open>Global Quote\<close> object itself. \<^verbatim>\<open>.replace\<close> on a change percent
  that is not a string is a \<^verbatim>\<open>TypeError\<close>.
\<close>

definition parse_quote :: "string \<Rightarrow> json \<Rightarrow> error + json" where
  "parse_quote symbol response =
     (case get_prop response ''Global Quote'' of
        Inl e \<Rightarrow> Inl e
      | Inr p \<Rightarrow>
          (case signal p of
             None \<Rightarrow> Inl (NoQuoteData symbol)
           | Some quote \<Rightarrow>
               (case get_prop quote ''01. symbol'' of
                  Inl e \<Rightarrow> Inl e
                | Inr p2 \<Rightarrow>
                    (case signal p2 of
                       None \<Rightarrow> Inl (NoQuoteData symbol)
                     | Some v \<Rightarrow>
                         (case get_prop quote ''10. change percent'' of
                            Inr (Some (JStr pc)) \<Rightarrow> Inr quote
                          | _ \<Rightarrow> Inl TypeError)))))"

text \<open>
  \<^verbatim>\<open>getQuote(symbol)\<close>, with the environment of \<^verbatim>\<open>fetchWithRateLimit\<close>; the first
  argument is \<^verbatim>\<open>String.prototype.toUpperCase\<close>.
\<close>

definition getQuote ::
  "(string \<Rightarrow> string) \<Rightarrow> string \<Rightarrow> int \<Rightarrow> error + http_response \<Rightarrow> int \<Rightarrow> bool
     \<Rightarrow> json cache \<Rightarrow> (error + json) \<times> json cache \<times> bool" where
  "getQuote toUpperCase symbol now net now' ok' c =
     (let cacheKey = ''quote_'' @ toUpperCase symbol
      in case fetchWithRateLimit cacheKey QUOTE now net now' ok' c of
           (Inl e, c1, called) \<Rightarrow> (Inl e, c1, called)
         | (Inr response, c1, called) \<Rightarrow> (parse_quote symbol response, c1, called))"

section \<open>Invariants of the limiter\<close>

text \<open>The pruning of \<^verbatim>\<open>requestHistory\<close> that \<^verbatim>\<open>canMakeRequest\<close> and \<^verbatim>\<open>getQueueStatus\<close> do.\<close>

definition prune :: "int \<Rightarrow> 'v limiter \<Rightarrow> 'v limiter" where
  "prune now s = s\<lparr>requestHistory :=
                     filter (\<lambda>timestamp. now - timestamp < INTERVAL_MS) (requestHistory s)\<rparr>"

text \<open>At most one call of \<^verbatim>\<open>processQueue\<close> is in its loop, and the flag says whether one is.\<close>

definition single_drain :: "'v limiter \<Rightarrow> bool" where
  "single_drain s \<longleftrightarrow> length (drains s) \<le> 1 \<and> (isProcessing s \<longleftrightarrow> drains s \<noteq> [])"

text \<open>
  Timestamps in admission order, each at least \<^verbatim>\<open>MIN_REQUEST_SPACING_MS\<close> after the
  ones before it.
\<close>

definition spaced :: "int list \<Rightarrow> bool" where
  "spaced ts \<longleftrightarrow> sorted_wrt (\<lambda>a b. a + MIN_REQUEST_SPACING_MS \<le> b) ts"

text \<open>A drain whose admission check has passed and that has yet to record its call.\<close>

fun ready :: "drain \<Rightarrow> bool" where
  "ready (AtAdmission r None) = True"
| "ready d = False"

text \<open>
  What links \<^verbatim>\<open>requestHistory\<close> to the log of all admissions at a time \<open>T\<close> that no
  clock value read so far exceeds: the history is in time order and holds
  admissions only, and an admission pruned from it is at least the minimum
  spacing old.
\<close>

definition hist_inv :: "int \<Rightarrow> int list \<Rightarrow> int list \<Rightarrow> bool" where
  "hist_inv T h adm \<longleftrightarrow>
     sorted h \<and> set h \<subseteq> set adm \<and>
     (\<forall>t\<in>set adm. 0 < t \<and> t \<le> T \<and> (t \<in> set h \<or> t + MIN_REQUEST_SPACING_MS \<le> T)) \<and>
     spaced adm"

definition all_spaced_before :: "int \<Rightarrow> int list \<Rightarrow> bool" where
  "all_spaced_before T adm \<longleftrightarrow> (\<forall>t\<in>set adm. t + MIN_REQUEST_SPACING_MS \<le> T)"

definition timing_inv :: "int \<Rightarrow> 'v limiter \<Rightarrow> bool" where
  "timing_inv T s \<longleftrightarrow>
     hist_inv T (requestHistory s) (admitted s) \<and>
     ((\<exists>d\<in>set (drains s). ready d) \<longrightarrow> all_spaced_before T (admitted s))"

text \<open>
  \<open>a\<close> may come before \<open>b\<close>: \<open>a\<close> is not a request of lower priority than \<open>b\<close>
  that arrived after \<open>b\<close>, and when the priorities are equal \<open>a\<close> arrived first.
\<close>

definition order_ok :: "QueuedRequest \<Rightarrow> QueuedRequest \<Rightarrow> bool" where
  "order_ok a b \<longleftrightarrow>
     \<not> (priority a < priority b \<and> req_id b < req_id a) \<and>
     (priority a = priority b \<longrightarrow> req_id a < req_id b)"

text \<open>
  The requests already shifted off the queue, followed by the queue, are in such
  an order; the queue is by descending priority; request numbers are below the
  next one.
\<close>

definition order_inv :: "'v limiter \<Rightarrow> bool" where
  "order_inv s \<longleftrightarrow>
     sorted_wrt order_ok (popped s @ queue s) \<and>
     sorted_wrt (\<lambda>a b. priority b \<le> priority a) (queue s) \<and>
     (\<forall>r\<in>set (popped s @ queue s). req_id r < nextId s)"








text \<open>
  The two errors that \<^verbatim>\<open>waitUntilCanRequest\<close> throws: the daily limit and the timeout.
\<close>

fun wait_error :: "error \<Rightarrow> bool" where
  "wait_error (ReasonError DailyLimitReached) = True"
| "wait_error RateLimiterTimeout = True"
| "wait_error e = False"

text \<open>A drain whose admission wait threw holds one of these two errors.\<close>

definition wait_inv :: "'v limiter \<Rightarrow> bool" where
  "wait_inv s \<longleftrightarrow> (\<forall>r e. AtAdmission r (Some e) \<in> set (drains s) \<longrightarrow> wait_error e)"


section \<open>Properties of the cache\<close>

text \<open>Deleting from one tier and reading the other, key by key.\<close>

lemma getStorageKey_inj: "getStorageKey a = getStorageKey b \<longleftrightarrow> a = b"
  by (simp add: getStorageKey_def)

lemma map_of_fold_clean_key:
  "map_of ls k = None \<Longrightarrow> map_of (fold (clean_key now) ks ls) k = None"
proof (induction ks arbitrary: ls)
  case Nil
  then show ?case by simp
next
  case (Cons a ks)
  have "map_of (clean_key now a ls) k = None"
    using Cons.prems
    by (auto simp: clean_key_def delete_conv' split: option.splits stored.splits)
  then show ?case using Cons.IH by simp
qed

lemma memoryCache_cleanOldEntries: "memoryCache (cleanOldEntries now c) = memoryCache c"
  by (simp add: cleanOldEntries_def)

lemma localStorage_cleanOldEntries_None:
  "map_of (localStorage c) k = None \<Longrightarrow> map_of (localStorage (cleanOldEntries now c)) k = None"
  by (simp add: cleanOldEntries_def map_of_fold_clean_key)

lemma memory_after_set:
  "map_of (memoryCache (cache_set k v ty t wr c)) k =
     Some \<lparr>data = v, timestamp = t, expiresAt = t + CACHE_DURATIONS ty\<rparr>"
  by (simp add: cache_set_def Let_def memoryCache_cleanOldEntries update_conv')

lemma memory_set_other:
  "k' \<noteq> k \<Longrightarrow> map_of (memoryCache (cache_set k' v ty t wr c)) k = map_of (memoryCache c) k"
  by (simp add: cache_set_def Let_def memoryCache_cleanOldEntries update_conv')

lemma storage_set_other_None:
  "k' \<noteq> k \<Longrightarrow> map_of (localStorage c) (getStorageKey k) = None \<Longrightarrow>
   map_of (localStorage (cache_set k' v ty t wr c)) (getStorageKey k) = None"
  by (simp add: cache_set_def Let_def localStorage_cleanOldEntries_None update_conv'
      getStorageKey_inj)

lemma get_hit:
  "map_of (memoryCache c) k = Some e \<Longrightarrow> now \<le> expiresAt e \<Longrightarrow>
   cache_get k now c = (Some (data e), c)"
  by (simp add: cache_get_def check_expiry_def)

lemma get_expired:
  "map_of (memoryCache c) k = Some e \<Longrightarrow> expiresAt e < now \<Longrightarrow>
   cache_get k now c = (None, delete_entry k c)"
  by (simp add: cache_get_def check_expiry_def)

lemma get_absent:
  "map_of (memoryCache c) k = None \<Longrightarrow> map_of (localStorage c) (getStorageKey k) = None \<Longrightarrow>
   cache_get k now c = (None, c)"
  by (simp add: cache_get_def)

lemma delete_entry_maps:
  "map_of (memoryCache (delete_entry k' c)) k = (if k = k' then None else map_of (memoryCache c) k)"
  "map_of (localStorage (delete_entry k' c)) (getStorageKey k) =
     (if k = k' then None else map_of (localStorage c) (getStorageKey k))"
  by (simp_all add: delete_entry_def delete_conv' getStorageKey_inj)

lemma get_other_memory:
  "k' \<noteq> k \<Longrightarrow> map_of (memoryCache (snd (cache_get k' now c))) k = map_of (memoryCache c) k"
  by (simp add: cache_get_def check_expiry_def delete_entry_maps update_conv'
      split: option.splits stored.splits)

lemma get_other_storage:
  "k' \<noteq> k \<Longrightarrow> map_of (localStorage (snd (cache_get k' now c))) (getStorageKey k)
     = map_of (localStorage c) (getStorageKey k)"
  by (simp add: cache_get_def check_expiry_def delete_entry_maps
      split: option.splits stored.splits)

text \<open>
  The entry of the last \<open>set\<close> stays in the memory tier while no call sets the key
  again or reads it after its expiry.
\<close>

lemma step_keeps_entry:
  assumes "map_of (memoryCache c) k = Some e"
    and "\<not> sets_key k op" and "\<not> reads_after k (expiresAt e) op"
  shows "map_of (memoryCache (cache_step op c)) k = Some e"
proof (cases op)
  case (Set k' d ty now wr)
  then show ?thesis using assms by (simp add: memory_set_other)
next
  case (Get k' now)
  show ?thesis
  proof (cases "k' = k")
    case True
    then have "now \<le> expiresAt e" using assms(3) Get by simp
    then show ?thesis using assms(1) Get True by (simp add: get_hit)
  next
    case False
    then show ?thesis using assms(1) Get by (simp add: get_other_memory)
  qed
qed

lemma run_keeps_entry:
  assumes "map_of (memoryCache c) k = Some e"
    and "\<forall>op\<in>set ops. \<not> sets_key k op \<and> \<not> reads_after k (expiresAt e) op"
  shows "map_of (memoryCache (cache_run ops c)) k = Some e"
  using assms unfolding cache_run_def
  by (induction ops arbitrary: c) (simp_all add: step_keeps_entry)

text \<open>
  Whatever the reads, the key holds the entry of the last \<open>set\<close> in the memory
  tier, or nothing in either tier.
\<close>

lemma step_entry_or_gone:
  assumes "entry_or_gone k e c" and "\<not> sets_key k op"
  shows "entry_or_gone k e (cache_step op c)"
proof (cases op)
  case (Set k' d ty now wr)
  then show ?thesis using assms
    by (auto simp: entry_or_gone_def memory_set_other storage_set_other_None)
next
  case (Get k' now)
  show ?thesis
  proof (cases "k' = k")
    case True
    then show ?thesis using assms(1) Get
      by (cases "now \<le> expiresAt e")
         (auto simp: entry_or_gone_def get_hit get_expired get_absent delete_entry_maps)
  next
    case False
    then show ?thesis using assms(1) Get
      by (simp add: entry_or_gone_def get_other_memory get_other_storage)
  qed
qed

lemma run_entry_or_gone:
  assumes "entry_or_gone k e c" and "\<forall>op\<in>set ops. \<not> sets_key k op"
  shows "entry_or_gone k e (cache_run ops c)"
  using assms unfolding cache_run_def
  by (induction ops arbitrary: c) (simp_all add: step_entry_or_gone)

text \<open>
  C5. After \<open>set(k, v, ty)\<close> at time \<open>t\<close>, and any further calls of \<open>set\<close> and \<open>get\<close>
  none of which sets \<open>k\<close> again: \<open>get(k)\<close> at a time \<open>now\<close> not after
  \<open>expiresAt = t + duration ty\<close> returns \<open>v\<close> (the reads of \<open>k\<close> in between being
  no later than the expiry either, as they are when the clock does not go back);
  \<open>get(k)\<close> at a time after \<open>expiresAt\<close> returns absent and leaves no entry for \<open>k\<close>
  in the memory tier nor in the durable tier.
\<close>

theorem c5_get_returns_last_set_until_expiry:
  fixes c :: "'a cache"
  assumes "\<forall>op\<in>set ops. \<not> sets_key k op"
  shows "(now \<le> t + CACHE_DURATIONS ty \<and>
          (\<forall>op\<in>set ops. \<not> reads_after k (t + CACHE_DURATIONS ty) op)
            \<longrightarrow> fst (cache_get k now (cache_run ops (cache_set k v ty t wr c))) = Some v) \<and>
         (t + CACHE_DURATIONS ty < now
            \<longrightarrow> fst (cache_get k now (cache_run ops (cache_set k v ty t wr c))) = None \<and>
                map_of (memoryCache
                  (snd (cache_get k now (cache_run ops (cache_set k v ty t wr c))))) k = None \<and>
                map_of (localStorage
                  (snd (cache_get k now (cache_run ops (cache_set k v ty t wr c)))))
                  (getStorageKey k) = None)"
proof -
  let ?e = "\<lparr>data = v, timestamp = t, expiresAt = t + CACHE_DURATIONS ty\<rparr>"
  let ?c0 = "cache_set k v ty t wr c"
  let ?c1 = "cache_run ops ?c0"
  have m0: "map_of (memoryCache ?c0) k = Some ?e" by (rule memory_after_set)
  have fresh: "fst (cache_get k now ?c1) = Some v"
    if "now \<le> t + CACHE_DURATIONS ty"
      and "\<forall>op\<in>set ops. \<not> reads_after k (t + CACHE_DURATIONS ty) op"
  proof -
    have "map_of (memoryCache ?c1) k = Some ?e"
      using m0 assms that(2) by (intro run_keeps_entry) simp_all
    then show ?thesis using that(1) by (simp add: get_hit)
  qed
  have stale: "fst (cache_get k now ?c1) = None \<and>
      map_of (memoryCache (snd (cache_get k now ?c1))) k = None \<and>
      map_of (localStorage (snd (cache_get k now ?c1))) (getStorageKey k) = None"
    if "t + CACHE_DURATIONS ty < now"
  proof -
    have "entry_or_gone k ?e ?c0" using m0 by (simp add: entry_or_gone_def)
    then have "entry_or_gone k ?e ?c1" using assms by (rule run_entry_or_gone)
    then show ?thesis using that
      by (auto simp: entry_or_gone_def get_expired get_absent delete_entry_maps)
  qed
  show ?thesis using fresh stale by blast
qed

theorem c5_witness:
  "fst (cache_get ''quote_AAPL'' 31000
      (cache_run [Get ''quote_MSFT'' 1500, Set ''quote_MSFT'' (7::nat) QUOTE 2000 False,
                  Get ''quote_AAPL'' 3000]
         (cache_set ''quote_AAPL'' 150 QUOTE 1000 True
            \<lparr>memoryCache = [], localStorage = []\<rparr>))) = Some 150
   \<and> fst (cache_get ''quote_AAPL'' 62000
      (cache_run [Get ''quote_MSFT'' 1500, Set ''quote_MSFT'' (7::nat) QUOTE 2000 False,
                  Get ''quote_AAPL'' 3000]
         (cache_set ''quote_AAPL'' 150 QUOTE 1000 True
            \<lparr>memoryCache = [], localStorage = []\<rparr>))) = None"
  using c5_get_returns_last_set_until_expiry
      [of "[Get ''quote_MSFT'' 1500, Set ''quote_MSFT'' (7::nat) QUOTE 2000 False,
            Get ''quote_AAPL'' 3000]"
        "''quote_AAPL''" 31000 1000 QUOTE 150 True "\<lparr>memoryCache = [], localStorage = []\<rparr>"]
    c5_get_returns_last_set_until_expiry
      [of "[Get ''quote_MSFT'' 1500, Set ''quote_MSFT'' (7::nat) QUOTE 2000 False,
            Get ''quote_AAPL'' 3000]"
        "''quote_AAPL''" 62000 1000 QUOTE 150 True "\<lparr>memoryCache = [], localStorage = []\<rparr>"]
  by simp

section \<open>Properties of the limiter\<close>

text \<open>What the admission check leaves untouched.\<close>

lemma resume_storage_full_cases:
  "resume_storage_full i now s = s \<or>
   (\<exists>r. i < length (drains s) \<and> drains s ! i = AtAdmission r None \<and>
      resume_storage_full i now s =
        continue i now
          (s\<lparr>requestHistory := requestHistory s @ [now],
             dailyCount := dailyCount s + 1,
             admitted := admitted s @ [now],
             settled := settled s @ [(req_id r, Inl QuotaExceededError)]\<rparr>))"
  by (simp add: resume_storage_full_def split: drain.splits option.splits)

lemma canMakeRequest_snd:
  "snd (canMakeRequest now s) = (if MAX_DAILY_REQUESTS \<le> dailyCount s then s else prune now s)"
  by (simp add: canMakeRequest_def prune_def Let_def split: option.splits)

lemma waitUntilCanRequest_snd:
  "snd (waitUntilCanRequest now a s) =
     (if a < maxAttempts \<and> dailyCount s < MAX_DAILY_REQUESTS then prune now s else s)"
proof -
  obtain st s1 where c: "canMakeRequest now s = (st, s1)" by (cases "canMakeRequest now s")
  then have "s1 = (if MAX_DAILY_REQUESTS \<le> dailyCount s then s else prune now s)"
    using canMakeRequest_snd [of now s] by simp
  then show ?thesis
    by (simp add: waitUntilCanRequest_def c split: option.splits)
qed

lemma prune_fields [simp]:
  "queue (prune now s) = queue s"
  "isProcessing (prune now s) = isProcessing s"
  "dailyCount (prune now s) = dailyCount s"
  "dailyResetTime (prune now s) = dailyResetTime s"
  "av_daily_count (prune now s) = av_daily_count s"
  "drains (prune now s) = drains s"
  "nextId (prune now s) = nextId s"
  "popped (prune now s) = popped s"
  "admitted (prune now s) = admitted s"
  "settled (prune now s) = settled s"
  "discarded (prune now s) = discarded s"
  "requestHistory (prune now s) = filter (\<lambda>t. now - t < INTERVAL_MS) (requestHistory s)"
  by (simp_all add: prune_def)

lemma drain_loop_Nil: "queue s = [] \<Longrightarrow> drain_loop now s = (None, s\<lparr>isProcessing := False\<rparr>)"
  by (simp add: drain_loop_def)

lemma drain_loop_Cons:
  "queue s = r # rest \<Longrightarrow>
   drain_loop now s =
     (Some (suspend r 0 (fst (waitUntilCanRequest now 0 (s\<lparr>queue := rest, popped := popped s @ [r]\<rparr>)))),
      snd (waitUntilCanRequest now 0 (s\<lparr>queue := rest, popped := popped s @ [r]\<rparr>)))"
  by (simp add: drain_loop_def split: prod.splits)

lemma drain_loop_frame:
  "drains (snd (drain_loop now s)) = drains s"
  "isProcessing (snd (drain_loop now s)) = (isProcessing s \<and> queue s \<noteq> [])"
  "(fst (drain_loop now s) = None) = (queue s = [])"
  by (cases "queue s"; simp add: drain_loop_Nil drain_loop_Cons waitUntilCanRequest_snd)+

lemma single_drain_processQueue: "single_drain s \<Longrightarrow> single_drain (processQueue now s)"
proof -
  assume a: "single_drain s"
  show ?thesis
  proof (cases "isProcessing s \<or> queue s = []")
    case True
    then show ?thesis using a by (simp add: processQueue_def)
  next
    case False
    let ?s = "s\<lparr>isProcessing := True\<rparr>"
    obtain d s1 where dl: "drain_loop now ?s = (d, s1)" by (cases "drain_loop now ?s")
    have "drains s1 = drains s" "isProcessing s1" "d \<noteq> None"
      using drain_loop_frame [of now ?s] dl False by auto
    moreover have "drains s = []" using a False by (simp add: single_drain_def)
    ultimately show ?thesis using False dl
      by (auto simp: processQueue_def single_drain_def)
  qed
qed

lemma single_drain_continue:
  "single_drain s \<Longrightarrow> i < length (drains s) \<Longrightarrow> single_drain (continue i now s)"
proof -
  assume a: "single_drain s" and i: "i < length (drains s)"
  obtain d s1 where dl: "drain_loop now s = (d, s1)" by (cases "drain_loop now s")
  have f: "drains s1 = drains s" "isProcessing s1 = (isProcessing s \<and> queue s \<noteq> [])"
      "(d = None) = (queue s = [])"
    using drain_loop_frame [of now s] dl by auto
  have l: "length (drains s) = 1" "i = 0" "isProcessing s" using a i by (auto simp: single_drain_def)
  show ?thesis
  proof (cases d)
    case None
    then show ?thesis using f l dl by (simp add: continue_def single_drain_def)
  next
    case (Some x)
    then show ?thesis using f l dl by (auto simp: continue_def single_drain_def)
  qed
qed

lemma single_drain_settled [simp]:
  "single_drain (s\<lparr>settled := x\<rparr>) = single_drain s"
  by (simp add: single_drain_def)

lemma single_drain_resume: "single_drain s \<Longrightarrow> single_drain (resume i now outcome s)"
proof -
  assume a: "single_drain s"
  show ?thesis
  proof (cases "i < length (drains s)")
    case False
    then show ?thesis using a by (simp add: resume_def)
  next
    case True
    show ?thesis
    proof (cases "drains s ! i")
      case (AtTimer r n ms)
      obtain w s1 where w: "waitUntilCanRequest now (Suc n) s = (w, s1)"
        by (cases "waitUntilCanRequest now (Suc n) s")
      then have "drains s1 = drains s" "isProcessing s1 = isProcessing s"
        using waitUntilCanRequest_snd [of now "Suc n" s] by (auto split: if_splits)
      then show ?thesis using a True AtTimer w
        by (simp add: resume_def single_drain_def)
    next
      case (AtAdmission r res)
      show ?thesis
      proof (cases res)
        case None
        then show ?thesis using a True AtAdmission by (simp add: resume_def single_drain_def)
      next
        case (Some e)
        then show ?thesis using a True AtAdmission
          by (simp add: resume_def single_drain_continue)
      qed
    next
      case (AtExecute r)
      then show ?thesis using a True by (simp add: resume_def single_drain_continue)
    qed
  qed
qed

lemma single_drain_resume_storage_full:
  assumes "single_drain s"
  shows "single_drain (resume_storage_full i now s)"
proof -
  consider "resume_storage_full i now s = s"
    | r where "i < length (drains s)" "drains s ! i = AtAdmission r None"
        "resume_storage_full i now s =
           continue i now
             (s\<lparr>requestHistory := requestHistory s @ [now],
                dailyCount := dailyCount s + 1,
                admitted := admitted s @ [now],
                settled := settled s @ [(req_id r, Inl QuotaExceededError)]\<rparr>)"
    using resume_storage_full_cases [of i now s] by blast
  then show ?thesis
  proof cases
    case 1
    then show ?thesis using assms by simp
  next
    case 2
    have "single_drain (s\<lparr>requestHistory := requestHistory s @ [now],
                dailyCount := dailyCount s + 1,
                admitted := admitted s @ [now],
                settled := settled s @ [(req_id r, Inl QuotaExceededError)]\<rparr>)"
      using assms by (simp add: single_drain_def)
    then show ?thesis using 2(1) by (simp add: 2(3) single_drain_continue)
  qed
qed

lemma single_drain_step: "single_drain s \<Longrightarrow> single_drain (step ev s)"
proof -
  assume a: "single_drain s"
  obtain now act where ev: "ev = (now, act)" by (cases ev)
  show ?thesis
  proof (cases act)
    case (Enqueue p)
    have "single_drain (s\<lparr>queue := insert_request \<lparr>req_id = nextId s, priority = p, req_timestamp = now\<rparr> (queue s),
         nextId := Suc (nextId s)\<rparr>)"
      using a by (simp add: single_drain_def)
    then show ?thesis using ev Enqueue by (simp add: enqueue_def Let_def single_drain_processQueue)
  next
    case (Resume i outcome)
    then show ?thesis using ev a by (simp add: single_drain_resume)
  next
    case (ResumeStorageFull i)
    then show ?thesis using ev a by (simp add: single_drain_resume_storage_full)
  next
    case (CheckDailyReset nxt)
    then show ?thesis using ev a by (simp add: checkDailyReset_def single_drain_def)
  next
    case GetQueueStatus
    have "snd (getQueueStatus now s) = snd (canMakeRequest now (prune now s))"
      by (simp add: getQueueStatus_def Let_def prune_def split: prod.splits)
    then show ?thesis using ev a GetQueueStatus
      by (simp add: canMakeRequest_snd single_drain_def)
  next
    case ClearQueue
    then show ?thesis using ev a by (simp add: clearQueue_def single_drain_def)
  qed
qed

lemma single_drain_run: "single_drain s \<Longrightarrow> single_drain (run evs s)"
  unfolding run_def by (induction evs arbitrary: s) (simp_all add: single_drain_step)

text \<open>
  C9. In every state the limiter reaches from its initial state, whatever the
  calls and resumptions and in whatever order, at most one call of
  \<^verbatim>\<open>processQueue\<close> is in its drain loop, and \<^verbatim>\<open>isProcessing\<close> is set exactly when one
  is; an \<^verbatim>\<open>enqueue\<close> that arrives while a drain is active leaves the active drains
  as they are, so it starts no second one.
\<close>

theorem c9_single_active_drain:
  "length (drains (run evs (init dc rt))) \<le> 1 \<and>
   (isProcessing (run evs (init dc rt)) \<longleftrightarrow> drains (run evs (init dc rt)) \<noteq> []) \<and>
   (drains (run evs (init dc rt)) \<noteq> [] \<longrightarrow>
      drains (enqueue p now (run evs (init dc rt))) = drains (run evs (init dc rt)))"
proof -
  have "single_drain (init dc rt)" by (simp add: single_drain_def init_def)
  then have s: "single_drain (run evs (init dc rt))" by (rule single_drain_run)
  then have "isProcessing (run evs (init dc rt))" if "drains (run evs (init dc rt)) \<noteq> []"
    using that by (simp add: single_drain_def)
  then have "drains (enqueue p now (run evs (init dc rt))) = drains (run evs (init dc rt))"
    if "drains (run evs (init dc rt)) \<noteq> []"
    using that by (simp add: enqueue_def processQueue_def Let_def)
  then show ?thesis using s by (simp add: single_drain_def)
qed

theorem c9_witness:
  "drains (run [(1000, Enqueue 10), (1000, Enqueue 5), (1001, Enqueue 10)]
            (init 0 86400000 :: nat limiter)) \<noteq> [] \<and>
   length (drains (run [(1000, Enqueue 10), (1000, Enqueue 5), (1001, Enqueue 10)]
            (init 0 86400000 :: nat limiter))) \<le> 1 \<and>
   drains (enqueue 2 1002 (run [(1000, Enqueue 10), (1000, Enqueue 5), (1001, Enqueue 10)]
            (init 0 86400000 :: nat limiter)))
     = drains (run [(1000, Enqueue 10), (1000, Enqueue 5), (1001, Enqueue 10)]
            (init 0 86400000 :: nat limiter))"
proof -
  have ne: "drains (run [(1000, Enqueue 10), (1000, Enqueue 5), (1001, Enqueue 10)]
            (init 0 86400000 :: nat limiter)) \<noteq> []"
    by (simp add: run_def init_def enqueue_def processQueue_def drain_loop_def
        waitUntilCanRequest_def canMakeRequest_def insert_request_def suspend_def
        lastRequest_def maxAttempts_def MAX_DAILY_REQUESTS_def MAX_REQUESTS_PER_MINUTE_def
        Let_def)
  show ?thesis
    using ne c9_single_active_drain
      [of "[(1000, Enqueue 10), (1000, Enqueue 5), (1001, Enqueue 10)] :: nat event list"
        0 86400000 2 1002]
    by simp
qed

text \<open>The timing invariant, one method at a time.\<close>

lemma hist_inv_mono: "hist_inv T h adm \<Longrightarrow> T \<le> T' \<Longrightarrow> hist_inv T' h adm"
  by (fastforce simp: hist_inv_def)

lemma all_spaced_before_mono: "all_spaced_before T adm \<Longrightarrow> T \<le> T' \<Longrightarrow> all_spaced_before T' adm"
  by (fastforce simp: all_spaced_before_def)

lemma hist_inv_prune:
  assumes "hist_inv T h adm" and "T \<le> now"
  shows "hist_inv now (filter (\<lambda>t. now - t < INTERVAL_MS) h) adm"
proof -
  have "t \<in> set (filter (\<lambda>t. now - t < INTERVAL_MS) h) \<or> t + MIN_REQUEST_SPACING_MS \<le> now"
    if "t \<in> set adm" for t
  proof (cases "t \<in> set h")
    case True
    then show ?thesis by (auto simp: INTERVAL_MS_def MIN_REQUEST_SPACING_MS_def)
  next
    case False
    then have "t + MIN_REQUEST_SPACING_MS \<le> T" using assms(1) that by (auto simp: hist_inv_def)
    then show ?thesis using assms(2) by simp
  qed
  moreover have "\<forall>t\<in>set adm. 0 < t \<and> t \<le> now" using assms by (fastforce simp: hist_inv_def)
  moreover have "sorted (filter (\<lambda>t. now - t < INTERVAL_MS) h)"
    using assms(1) by (simp add: hist_inv_def sorted_wrt_filter)
  moreover have "set (filter (\<lambda>t. now - t < INTERVAL_MS) h) \<subseteq> set adm"
    using assms(1) by (auto simp: hist_inv_def)
  moreover have "spaced adm" using assms(1) by (simp add: hist_inv_def)
  ultimately show ?thesis unfolding hist_inv_def by blast
qed

lemma sorted_le_last: "sorted (h :: int list) \<Longrightarrow> t \<in> set h \<Longrightarrow> t \<le> last h"
  by (induction h) auto

lemma lastRequest_hist:
  assumes "hist_inv T h adm" and "h \<noteq> []"
  shows "lastRequest h = Some (last h)" and "\<forall>t\<in>set h. t \<le> last h"
proof -
  have "last h \<in> set adm" using assms by (auto simp: hist_inv_def)
  then have "0 < last h" using assms(1) by (auto simp: hist_inv_def)
  then show "lastRequest h = Some (last h)" using assms(2) by (simp add: lastRequest_def)
  have "sorted h" using assms(1) by (simp add: hist_inv_def)
  then show "\<forall>t\<in>set h. t \<le> last h" by (simp add: sorted_le_last)
qed


lemma canMakeRequest_allowed:
  assumes "hist_inv T (requestHistory s) (admitted s)" and "T \<le> now"
    and "fst (canMakeRequest now s) = None"
  shows "all_spaced_before now (admitted s)"
proof -
  let ?h = "filter (\<lambda>t. now - t < INTERVAL_MS) (requestHistory s)"
  have hi: "hist_inv now ?h (admitted s)" using assms(1,2) by (rule hist_inv_prune)
  have ok: "lastRequest ?h = None \<or> (\<exists>l. lastRequest ?h = Some l \<and> \<not> now - l < MIN_REQUEST_SPACING_MS)"
    using assms(3)
    by (auto simp: canMakeRequest_def Let_def split: if_splits option.splits)
  have "t + MIN_REQUEST_SPACING_MS \<le> now" if t: "t \<in> set (admitted s)" for t
  proof (cases "t \<in> set ?h")
    case False
    then show ?thesis using hi t by (auto simp: hist_inv_def)
  next
    case True
    then have ne: "?h \<noteq> []" by (metis empty_iff empty_set)
    have l: "lastRequest ?h = Some (last ?h)" and le: "t \<le> last ?h"
      using lastRequest_hist [OF hi ne] True by auto
    then have "\<not> now - last ?h < MIN_REQUEST_SPACING_MS" using ok by auto
    then show ?thesis using le by simp
  qed
  then show ?thesis by (simp add: all_spaced_before_def)
qed

lemma waitUntilCanRequest_timing:
  assumes "hist_inv T (requestHistory s) (admitted s)" and "T \<le> now"
  shows "hist_inv now (requestHistory (snd (waitUntilCanRequest now a s)))
           (admitted (snd (waitUntilCanRequest now a s)))"
    and "admitted (snd (waitUntilCanRequest now a s)) = admitted s"
    and "fst (waitUntilCanRequest now a s) = WaitReturn \<Longrightarrow> all_spaced_before now (admitted s)"
proof -
  show "hist_inv now (requestHistory (snd (waitUntilCanRequest now a s)))
           (admitted (snd (waitUntilCanRequest now a s)))"
    using assms by (simp add: waitUntilCanRequest_snd hist_inv_prune hist_inv_mono)
  show "admitted (snd (waitUntilCanRequest now a s)) = admitted s"
    by (simp add: waitUntilCanRequest_snd)
  assume "fst (waitUntilCanRequest now a s) = WaitReturn"
  then have "fst (canMakeRequest now s) = None"
    by (auto simp: waitUntilCanRequest_def split: if_splits prod.splits option.splits)
  then show "all_spaced_before now (admitted s)" using assms by (intro canMakeRequest_allowed)
qed

lemma ready_suspend [simp]: "ready (suspend r a w) = (w = WaitReturn)"
  by (cases w) (simp_all add: suspend_def)

lemma drain_loop_timing:
  assumes "hist_inv T (requestHistory s) (admitted s)" and "T \<le> now"
  shows "hist_inv now (requestHistory (snd (drain_loop now s))) (admitted (snd (drain_loop now s)))"
    and "admitted (snd (drain_loop now s)) = admitted s"
    and "fst (drain_loop now s) = Some d \<Longrightarrow> ready d \<Longrightarrow> all_spaced_before now (admitted s)"
proof -
  show "hist_inv now (requestHistory (snd (drain_loop now s))) (admitted (snd (drain_loop now s)))"
  proof (cases "queue s")
    case Nil
    then show ?thesis using assms by (simp add: drain_loop_Nil hist_inv_mono)
  next
    case (Cons r rest)
    then show ?thesis
      using waitUntilCanRequest_timing(1) [of T "s\<lparr>queue := rest, popped := popped s @ [r]\<rparr>" now 0] assms
      by (simp add: drain_loop_Cons)
  qed
  show "admitted (snd (drain_loop now s)) = admitted s"
    by (cases "queue s") (simp_all add: drain_loop_Nil drain_loop_Cons waitUntilCanRequest_snd)
  assume d: "fst (drain_loop now s) = Some d" "ready d"
  show "all_spaced_before now (admitted s)"
  proof (cases "queue s")
    case Nil
    then show ?thesis using d by (simp add: drain_loop_Nil)
  next
    case (Cons r rest)
    then show ?thesis
      using waitUntilCanRequest_timing(3) [of T "s\<lparr>queue := rest, popped := popped s @ [r]\<rparr>" now 0] assms d
      by (auto simp: drain_loop_Cons)
  qed
qed


lemma timing_inv_mono: "timing_inv T s \<Longrightarrow> T \<le> T' \<Longrightarrow> timing_inv T' s"
  unfolding timing_inv_def using hist_inv_mono all_spaced_before_mono by blast

lemma timing_processQueue:
  assumes "timing_inv T s" and "single_drain s" and "T \<le> now"
  shows "timing_inv now (processQueue now s)"
proof (cases "isProcessing s \<or> queue s = []")
  case True
  then show ?thesis using assms by (simp add: processQueue_def timing_inv_mono)
next
  case False
  let ?s = "s\<lparr>isProcessing := True\<rparr>"
  obtain d s1 where dl: "drain_loop now ?s = (d, s1)" by (cases "drain_loop now ?s")
  have h: "hist_inv T (requestHistory ?s) (admitted ?s)" using assms(1) by (simp add: timing_inv_def)
  have e: "drains s = []" using assms(2) False by (simp add: single_drain_def)
  have f: "drains s1 = drains s" "d \<noteq> None" using drain_loop_frame [of now ?s] dl False by auto
  then obtain x where x: "d = Some x" by auto
  have "hist_inv now (requestHistory s1) (admitted s1)" "admitted s1 = admitted s"
    using drain_loop_timing(1,2) [OF h assms(3)] dl by auto
  moreover have "ready x \<Longrightarrow> all_spaced_before now (admitted s)"
    using drain_loop_timing(3) [OF h assms(3), of x] dl x by simp
  ultimately show ?thesis using False dl x e f
    by (auto simp: processQueue_def timing_inv_def)
qed

lemma timing_continue:
  assumes "hist_inv T (requestHistory s) (admitted s)" and "single_drain s"
    and "i < length (drains s)" and "T \<le> now"
  shows "timing_inv now (continue i now s)"
proof -
  obtain d s1 where dl: "drain_loop now s = (d, s1)" by (cases "drain_loop now s")
  have l: "length (drains s) = 1" "i = 0" using assms(2,3) by (auto simp: single_drain_def)
  have f: "drains s1 = drains s" using drain_loop_frame [of now s] dl by auto
  have hi: "hist_inv now (requestHistory s1) (admitted s1)" "admitted s1 = admitted s"
    using drain_loop_timing(1,2) [OF assms(1,4)] dl by auto
  show ?thesis
  proof (cases d)
    case None
    then show ?thesis using hi f l dl by (simp add: continue_def timing_inv_def)
  next
    case (Some x)
    have "ready x \<Longrightarrow> all_spaced_before now (admitted s)"
      using drain_loop_timing(3) [OF assms(1,4), of x] dl Some by simp
    moreover have "set ((drains s1)[i := x]) = {x}"
      using f l by (cases "drains s") auto
    ultimately show ?thesis using hi dl Some by (simp add: continue_def timing_inv_def)
  qed
qed

lemma hist_inv_push:
  assumes "hist_inv T h adm" and "all_spaced_before T adm" and "T \<le> now" and "0 < now"
  shows "hist_inv now (h @ [now]) (adm @ [now])"
proof -
  have "\<forall>t\<in>set h. t \<le> now" using assms(1,3) by (fastforce simp: hist_inv_def)
  then have "sorted (h @ [now])" using assms(1) by (simp add: hist_inv_def sorted_append)
  moreover have "\<forall>t\<in>set adm. t + MIN_REQUEST_SPACING_MS \<le> now"
    using assms(2,3) by (fastforce simp: all_spaced_before_def)
  moreover from this have "spaced (adm @ [now])"
    using assms(1) by (simp add: hist_inv_def spaced_def sorted_wrt_append)
  moreover have "\<forall>t\<in>set adm. 0 < t \<and> t \<le> now" using assms(1,3) by (fastforce simp: hist_inv_def)
  moreover have "set h \<subseteq> set adm" using assms(1) by (simp add: hist_inv_def)
  ultimately show ?thesis using assms(4) unfolding hist_inv_def by auto
qed

lemma timing_resume:
  assumes "timing_inv T s" and "single_drain s" and "T \<le> now" and "0 < now"
  shows "timing_inv now (resume i now outcome s)"
proof (cases "i < length (drains s)")
  case False
  then show ?thesis using assms by (simp add: resume_def timing_inv_mono)
next
  case True
  have l: "drains s = [drains s ! i]" "i = 0"
    using assms(2) True by (cases "drains s"; auto simp: single_drain_def)+
  have h: "hist_inv T (requestHistory s) (admitted s)" using assms(1) by (simp add: timing_inv_def)
  show ?thesis
  proof (cases "drains s ! i")
    case (AtTimer r n ms)
    obtain w s1 where w: "waitUntilCanRequest now (Suc n) s = (w, s1)"
      by (cases "waitUntilCanRequest now (Suc n) s")
    have "drains s1 = drains s" using waitUntilCanRequest_snd [of now "Suc n" s] w
      by (auto split: if_splits)
    then have "set ((drains s1)[i := suspend r (Suc n) w]) = {suspend r (Suc n) w}"
      using l by (cases "drains s") auto
    moreover have "hist_inv now (requestHistory s1) (admitted s1)" "admitted s1 = admitted s"
      "w = WaitReturn \<Longrightarrow> all_spaced_before now (admitted s)"
      using waitUntilCanRequest_timing [OF h assms(3), of "Suc n"] w by auto
    ultimately show ?thesis using True AtTimer w by (simp add: resume_def timing_inv_def)
  next
    case (AtAdmission r res)
    show ?thesis
    proof (cases res)
      case None
      have "ready (drains s ! i)" using AtAdmission None by simp
      then have "\<exists>d\<in>set (drains s). ready d" using True by (metis nth_mem)
      then have sp: "all_spaced_before T (admitted s)" using assms(1) by (simp add: timing_inv_def)
      have "set ((drains s)[i := AtExecute r]) = {AtExecute r}"
        using l by (cases "drains s") auto
      then show ?thesis using True AtAdmission None hist_inv_push [OF h sp assms(3,4)]
        by (simp add: resume_def timing_inv_def)
    next
      case (Some e)
      have "timing_inv now (continue i now (s\<lparr>settled := settled s @ [(req_id r, Inl e)]\<rparr>))"
        using h assms(2,3) True by (intro timing_continue [where T = T]) simp_all
      then show ?thesis using True AtAdmission Some by (simp add: resume_def)
    qed
  next
    case (AtExecute r)
    have "timing_inv now (continue i now (s\<lparr>settled := settled s @ [(req_id r, outcome)]\<rparr>))"
      using h assms(2,3) True by (intro timing_continue [where T = T]) simp_all
    then show ?thesis using True AtExecute by (simp add: resume_def)
  qed
qed

lemma timing_resume_storage_full:
  assumes "timing_inv T s" and "single_drain s" and "T \<le> now" and "0 < now"
  shows "timing_inv now (resume_storage_full i now s)"
proof -
  consider "resume_storage_full i now s = s"
    | r where "i < length (drains s)" "drains s ! i = AtAdmission r None"
        "resume_storage_full i now s =
           continue i now
             (s\<lparr>requestHistory := requestHistory s @ [now],
                dailyCount := dailyCount s + 1,
                admitted := admitted s @ [now],
                settled := settled s @ [(req_id r, Inl QuotaExceededError)]\<rparr>)"
    using resume_storage_full_cases [of i now s] by blast
  then show ?thesis
  proof cases
    case 1
    then show ?thesis using assms(1,3) by (simp add: timing_inv_mono)
  next
    case 2
    let ?s = "s\<lparr>requestHistory := requestHistory s @ [now],
                dailyCount := dailyCount s + 1,
                admitted := admitted s @ [now],
                settled := settled s @ [(req_id r, Inl QuotaExceededError)]\<rparr>"
    have h: "hist_inv T (requestHistory s) (admitted s)"
      using assms(1) by (simp add: timing_inv_def)
    have "ready (drains s ! i)" using 2(2) by simp
    then have "\<exists>d\<in>set (drains s). ready d" using 2(1) by (metis nth_mem)
    then have sp: "all_spaced_before T (admitted s)" using assms(1) by (simp add: timing_inv_def)
    have "hist_inv now (requestHistory ?s) (admitted ?s)"
      using hist_inv_push [OF h sp assms(3,4)] by simp
    moreover have "single_drain ?s" using assms(2) by (simp add: single_drain_def)
    moreover have "i < length (drains ?s)" using 2(1) by simp
    ultimately have "timing_inv now (continue i now ?s)"
      by (rule timing_continue) simp
    then show ?thesis by (simp add: 2(3))
  qed
qed

lemma timing_step:
  assumes "timing_inv T s" and "single_drain s" and "T \<le> now" and "0 < now"
  shows "timing_inv now (step (now, act) s)"
proof (cases act)
  case (Enqueue p)
  let ?s = "s\<lparr>queue := insert_request \<lparr>req_id = nextId s, priority = p, req_timestamp = now\<rparr> (queue s),
         nextId := Suc (nextId s)\<rparr>"
  have "timing_inv T ?s" "single_drain ?s"
    using assms(1,2) by (simp_all add: timing_inv_def single_drain_def)
  then have "timing_inv now (processQueue now ?s)" using assms(3) by (rule timing_processQueue)
  then show ?thesis using Enqueue by (simp add: enqueue_def Let_def)
next
  case (Resume i outcome)
  then show ?thesis using assms by (simp add: timing_resume)
next
  case (ResumeStorageFull i)
  then show ?thesis using assms by (simp add: timing_resume_storage_full)
next
  case (CheckDailyReset nxt)
  have "timing_inv T (checkDailyReset now nxt s)"
    using assms(1) by (simp add: checkDailyReset_def timing_inv_def)
  then show ?thesis using CheckDailyReset assms(3) by (simp add: timing_inv_mono)
next
  case GetQueueStatus
  have e: "snd (getQueueStatus now s) = snd (canMakeRequest now (prune now s))"
    by (simp add: getQueueStatus_def Let_def prune_def split: prod.splits)
  have h: "hist_inv T (requestHistory s) (admitted s)" using assms(1) by (simp add: timing_inv_def)
  have h1: "hist_inv now (requestHistory (prune now s)) (admitted s)"
    using hist_inv_prune [OF h assms(3)] by simp
  then have "hist_inv now (requestHistory (prune now (prune now s))) (admitted s)"
    using hist_inv_prune [OF h1, of now] by simp
  then show ?thesis using GetQueueStatus e h1 assms(1,3) all_spaced_before_mono
    by (auto simp: canMakeRequest_snd timing_inv_def)
next
  case ClearQueue
  have "timing_inv T (clearQueue s)" using assms(1) by (simp add: clearQueue_def timing_inv_def)
  then show ?thesis using ClearQueue assms(3) by (simp add: timing_inv_mono)
qed

lemma timing_run:
  assumes "timing_inv T s" and "single_drain s"
    and "sorted (T # map fst evs)" and "list_all (\<lambda>e. 0 < fst e) evs"
  shows "\<exists>T'. timing_inv T' (run evs s)"
  using assms unfolding run_def
proof (induction evs arbitrary: T s)
  case Nil
  then show ?case by auto
next
  case (Cons ev evs)
  obtain now act where ev: "ev = (now, act)" by (cases ev)
  have "timing_inv now (step ev s)" using Cons.prems ev by (simp add: timing_step)
  moreover have "single_drain (step ev s)" using Cons.prems(2) by (rule single_drain_step)
  moreover have "sorted (now # map fst evs)" "list_all (\<lambda>e. 0 < fst e) evs"
    using Cons.prems(3,4) ev by auto
  ultimately show ?case using Cons.IH [of now "step ev s"] by simp
qed

lemmas limiter_defs =
  run_def init_def enqueue_def processQueue_def drain_loop_def resume_def continue_def
  waitUntilCanRequest_def canMakeRequest_def insert_request_def suspend_def
  checkDailyReset_def getQueueStatus_def clearQueue_def resume_storage_full_def
  lastRequest_def ceil_seconds_def maxAttempts_def MAX_DAILY_REQUESTS_def
  MAX_REQUESTS_PER_MINUTE_def INTERVAL_MS_def MIN_REQUEST_SPACING_MS_def Let_def

lemma spaced_span:
  "spaced xs \<Longrightarrow> xs \<noteq> [] \<Longrightarrow> hd xs + MIN_REQUEST_SPACING_MS * int (length xs - 1) \<le> last xs"
proof (induction xs)
  case Nil
  then show ?case by simp
next
  case (Cons x xs)
  show ?case
  proof (cases xs)
    case Nil
    then show ?thesis by simp
  next
    case (Cons y ys)
    have "x + MIN_REQUEST_SPACING_MS \<le> hd xs" using Cons.prems(1) Cons by (simp add: spaced_def)
    moreover have "hd xs + MIN_REQUEST_SPACING_MS * int (length xs - 1) \<le> last xs"
      using Cons.IH Cons.prems(1) Cons by (simp add: spaced_def)
    ultimately show ?thesis using Cons by (simp add: algebra_simps)
  qed
qed

lemma spaced_window:
  assumes "spaced xs"
  shows "length (filter (\<lambda>ts. t - INTERVAL_MS < ts \<and> ts \<le> t) xs) \<le> MAX_REQUESTS_PER_MINUTE"
proof -
  let ?ys = "filter (\<lambda>ts. t - INTERVAL_MS < ts \<and> ts \<le> t) xs"
  have sp: "spaced ?ys" using assms by (simp add: spaced_def sorted_wrt_filter)
  show ?thesis
  proof (cases "?ys = []")
    case True
    then show ?thesis by simp
  next
    case False
    have "hd ?ys \<in> set ?ys" using False by (rule hd_in_set)
    moreover have "last ?ys \<in> set ?ys" using False by (rule last_in_set)
    ultimately have "t - INTERVAL_MS < hd ?ys" "last ?ys \<le> t" by auto
    moreover have "hd ?ys + MIN_REQUEST_SPACING_MS * int (length ?ys - 1) \<le> last ?ys"
      using sp False by (rule spaced_span)
    ultimately have "MIN_REQUEST_SPACING_MS * int (length ?ys - 1) < INTERVAL_MS" by linarith
    then have "int (length ?ys - 1) < 5" by (simp add: MIN_REQUEST_SPACING_MS_def INTERVAL_MS_def)
    then show ?thesis by (simp add: MAX_REQUESTS_PER_MINUTE_def)
  qed
qed

lemma spaced_run:
  assumes "clock_ok evs"
  shows "spaced (admitted (run evs (init dc rt)))"
proof -
  have "timing_inv 0 (init dc rt)" by (simp add: timing_inv_def hist_inv_def init_def spaced_def)
  moreover have "single_drain (init dc rt)" by (simp add: single_drain_def init_def)
  moreover have "sorted (0 # map fst evs)" "list_all (\<lambda>e. 0 < fst e) evs"
    using assms by (auto simp: clock_ok_def list_all_iff)
  ultimately obtain T' where "timing_inv T' (run evs (init dc rt))" using timing_run by blast
  then show ?thesis by (simp add: timing_inv_def hist_inv_def)
qed

text \<open>
  C2. Under a clock that is positive and never goes back, whatever the calls and
  resumptions: any two timestamps recorded at admission (the values pushed on
  \<^verbatim>\<open>requestHistory\<close>), the earlier at position \<open>i\<close> and the later at position \<open>j\<close>,
  are at least \<^verbatim>\<open>MIN_REQUEST_SPACING_MS\<close> = 12500 ms apart.
\<close>

theorem c2_min_spacing_between_admitted_calls:
  assumes "clock_ok evs" and "i < j" and "j < length (admitted (run evs (init dc rt)))"
  shows "admitted (run evs (init dc rt)) ! i + MIN_REQUEST_SPACING_MS
           \<le> admitted (run evs (init dc rt)) ! j
         \<and> MIN_REQUEST_SPACING_MS = 12500"
  using spaced_run [OF assms(1), of dc rt] assms(2,3)
  by (simp add: spaced_def sorted_wrt_iff_nth_less MIN_REQUEST_SPACING_MS_def)

theorem c2_witness:
  "admitted (run [(1000, Enqueue 10), (1000, Resume 0 (Inr 0)), (1500, Resume 0 (Inr 7)),
       (2000, Enqueue 10), (13500, Resume 0 (Inr 0)), (13500, Resume 0 (Inr 0))]
      (init 0 86400000 :: nat limiter)) = [1000, 13500] \<and>
   admitted (run [(1000, Enqueue 10), (1000, Resume 0 (Inr 0)), (1500, Resume 0 (Inr 7)),
       (2000, Enqueue 10), (13500, Resume 0 (Inr 0)), (13500, Resume 0 (Inr 0))]
      (init 0 86400000 :: nat limiter)) ! 0 + MIN_REQUEST_SPACING_MS
     \<le> admitted (run [(1000, Enqueue 10), (1000, Resume 0 (Inr 0)), (1500, Resume 0 (Inr 7)),
       (2000, Enqueue 10), (13500, Resume 0 (Inr 0)), (13500, Resume 0 (Inr 0))]
      (init 0 86400000 :: nat limiter)) ! 1"
proof -
  let ?evs = "[(1000, Enqueue 10), (1000, Resume 0 (Inr 0)), (1500, Resume 0 (Inr 7)),
       (2000, Enqueue 10), (13500, Resume 0 (Inr 0)), (13500, Resume 0 (Inr 0))] :: nat event list"
  have c: "clock_ok ?evs" by (simp add: clock_ok_def)
  have a: "admitted (run ?evs (init 0 86400000)) = [1000, 13500]"
    by (simp add: limiter_defs)
  have l: "1 < length (admitted (run ?evs (init 0 86400000)))" by (simp add: a)
  show ?thesis
    using c2_min_spacing_between_admitted_calls [OF c zero_less_one l] a by simp
qed

text \<open>
  C3. Under the same clock, any window of 60 seconds that ends at a time \<open>t\<close>
  holds at most \<^verbatim>\<open>MAX_REQUESTS_PER_MINUTE\<close> = 5 of the timestamps recorded at
  admission. And an admission check that passes the daily quota prunes from
  \<^verbatim>\<open>requestHistory\<close> the timestamps that are 60 seconds old or older; when 5 or more
  remain it refuses with the per-minute reason, and \<^verbatim>\<open>waitUntilCanRequest\<close> then
  waits instead of returning.
\<close>

theorem c3_at_most_five_per_window:
  assumes "clock_ok evs" and "dailyCount s < MAX_DAILY_REQUESTS"
  shows "length (filter (\<lambda>ts. t - INTERVAL_MS < ts \<and> ts \<le> t) (admitted (run evs (init dc rt))))
           \<le> MAX_REQUESTS_PER_MINUTE
         \<and> MAX_REQUESTS_PER_MINUTE = 5 \<and> INTERVAL_MS = 60000
         \<and> requestHistory (snd (canMakeRequest now s))
             = filter (\<lambda>ts. now - ts < INTERVAL_MS) (requestHistory s)
         \<and> (MAX_REQUESTS_PER_MINUTE \<le> length (filter (\<lambda>ts. now - ts < INTERVAL_MS) (requestHistory s))
              \<longrightarrow> fst (canMakeRequest now s) = Some PerMinuteLimitReached
                \<and> (a < maxAttempts \<longrightarrow> (\<exists>ms. fst (waitUntilCanRequest now a s) = WaitSleep ms)))"
proof -
  have "length (filter (\<lambda>ts. t - INTERVAL_MS < ts \<and> ts \<le> t) (admitted (run evs (init dc rt))))
           \<le> MAX_REQUESTS_PER_MINUTE"
    using spaced_run [OF assms(1)] by (rule spaced_window)
  moreover have "requestHistory (snd (canMakeRequest now s))
             = filter (\<lambda>ts. now - ts < INTERVAL_MS) (requestHistory s)"
    using assms(2) by (simp add: canMakeRequest_snd)
  moreover have "fst (canMakeRequest now s) = Some PerMinuteLimitReached"
    if "MAX_REQUESTS_PER_MINUTE \<le> length (filter (\<lambda>ts. now - ts < INTERVAL_MS) (requestHistory s))"
    using that assms(2) by (simp add: canMakeRequest_def Let_def)
  moreover have "\<exists>ms. fst (waitUntilCanRequest now a s) = WaitSleep ms"
    if "MAX_REQUESTS_PER_MINUTE \<le> length (filter (\<lambda>ts. now - ts < INTERVAL_MS) (requestHistory s))"
      and "a < maxAttempts"
    using that assms(2)
    by (simp add: waitUntilCanRequest_def canMakeRequest_def Let_def split: option.splits)
  ultimately show ?thesis
    by (simp add: MAX_REQUESTS_PER_MINUTE_def INTERVAL_MS_def)
qed

theorem c3_witness:
  "length (filter (\<lambda>ts. 14000 - INTERVAL_MS < ts \<and> ts \<le> 14000)
     (admitted (run [(1000, Enqueue 10), (1000, Resume 0 (Inr 0)), (1500, Resume 0 (Inr 7)),
       (2000, Enqueue 10), (13500, Resume 0 (Inr 0)), (13500, Resume 0 (Inr 0))]
      (init 0 86400000 :: nat limiter)))) \<le> 5 \<and>
   fst (canMakeRequest 55000
     ((init 0 86400000 :: nat limiter)\<lparr>requestHistory := [1000, 13500, 26000, 38500, 51000]\<rparr>))
     = Some PerMinuteLimitReached \<and>
   (\<exists>ms. fst (waitUntilCanRequest 55000 0
     ((init 0 86400000 :: nat limiter)\<lparr>requestHistory := [1000, 13500, 26000, 38500, 51000]\<rparr>))
     = WaitSleep ms)"
proof -
  let ?evs = "[(1000, Enqueue 10), (1000, Resume 0 (Inr 0)), (1500, Resume 0 (Inr 7)),
       (2000, Enqueue 10), (13500, Resume 0 (Inr 0)), (13500, Resume 0 (Inr 0))] :: nat event list"
  let ?s = "(init 0 86400000 :: nat limiter)\<lparr>requestHistory := [1000, 13500, 26000, 38500, 51000]\<rparr>"
  have c: "clock_ok ?evs" by (simp add: clock_ok_def)
  have d: "dailyCount ?s < MAX_DAILY_REQUESTS" by (simp add: init_def MAX_DAILY_REQUESTS_def)
  show ?thesis
    using c3_at_most_five_per_window [OF c d, of 14000 0 86400000 55000 0]
    by (simp add: init_def INTERVAL_MS_def MAX_REQUESTS_PER_MINUTE_def maxAttempts_def)
qed

text \<open>The daily counter and the reset time, one method at a time.\<close>

lemma waitUntilCanRequest_daily:
  "dailyCount (snd (waitUntilCanRequest now a s)) = dailyCount s"
  "dailyResetTime (snd (waitUntilCanRequest now a s)) = dailyResetTime s"
  by (simp_all add: waitUntilCanRequest_snd)

lemma drain_loop_daily:
  "dailyCount (snd (drain_loop now s)) = dailyCount s"
  "dailyResetTime (snd (drain_loop now s)) = dailyResetTime s"
  by (cases "queue s"; simp add: drain_loop_Nil drain_loop_Cons waitUntilCanRequest_snd)+

lemma continue_daily:
  "dailyCount (continue i now s) = dailyCount s"
  "dailyResetTime (continue i now s) = dailyResetTime s"
  using drain_loop_daily [of now s]
  by (cases "drain_loop now s"; cases "fst (drain_loop now s)"; simp add: continue_def)+

lemma processQueue_daily:
  "dailyCount (processQueue now s) = dailyCount s"
  "dailyResetTime (processQueue now s) = dailyResetTime s"
  using drain_loop_daily [of now "s\<lparr>isProcessing := True\<rparr>"]
  by (cases "drain_loop now (s\<lparr>isProcessing := True\<rparr>)";
      cases "fst (drain_loop now (s\<lparr>isProcessing := True\<rparr>))"; simp add: processQueue_def)+

lemma resume_AtTimer:
  "i < length (drains s) \<Longrightarrow> drains s ! i = AtTimer r a ms \<Longrightarrow>
   resume i now outcome s =
     (snd (waitUntilCanRequest now (Suc a) s))
       \<lparr>drains := (drains (snd (waitUntilCanRequest now (Suc a) s)))
          [i := suspend r (Suc a) (fst (waitUntilCanRequest now (Suc a) s))]\<rparr>"
  by (simp add: resume_def split: prod.splits)

lemma resume_AtAdmission_None:
  "i < length (drains s) \<Longrightarrow> drains s ! i = AtAdmission r None \<Longrightarrow>
   resume i now outcome s =
     s\<lparr>requestHistory := requestHistory s @ [now],
       dailyCount := dailyCount s + 1,
       av_daily_count := dailyCount s + 1,
       admitted := admitted s @ [now],
       drains := (drains s)[i := AtExecute r]\<rparr>"
  by (simp add: resume_def)

lemma resume_AtAdmission_Some:
  "i < length (drains s) \<Longrightarrow> drains s ! i = AtAdmission r (Some e) \<Longrightarrow>
   resume i now outcome s = continue i now (s\<lparr>settled := settled s @ [(req_id r, Inl e)]\<rparr>)"
  by (simp add: resume_def)

lemma resume_AtExecute:
  "i < length (drains s) \<Longrightarrow> drains s ! i = AtExecute r \<Longrightarrow>
   resume i now outcome s = continue i now (s\<lparr>settled := settled s @ [(req_id r, outcome)]\<rparr>)"
  by (simp add: resume_def)

lemma resume_idle: "\<not> i < length (drains s) \<Longrightarrow> resume i now outcome s = s"
  by (simp add: resume_def)

lemma resume_daily:
  "dailyCount s \<le> dailyCount (resume i now outcome s)"
  "dailyResetTime (resume i now outcome s) = dailyResetTime s"
proof -
  show "dailyCount s \<le> dailyCount (resume i now outcome s)"
  proof (cases "i < length (drains s)")
    case False
    then show ?thesis by (simp add: resume_idle)
  next
    case True
    show ?thesis
    proof (cases "drains s ! i")
      case (AtTimer r a ms)
      then show ?thesis using True by (simp add: resume_AtTimer waitUntilCanRequest_daily)
    next
      case (AtAdmission r res)
      then show ?thesis using True
        by (cases res) (simp_all add: resume_AtAdmission_None resume_AtAdmission_Some continue_daily)
    next
      case (AtExecute r)
      then show ?thesis using True by (simp add: resume_AtExecute continue_daily)
    qed
  qed
  show "dailyResetTime (resume i now outcome s) = dailyResetTime s"
  proof (cases "i < length (drains s)")
    case False
    then show ?thesis by (simp add: resume_idle)
  next
    case True
    show ?thesis
    proof (cases "drains s ! i")
      case (AtTimer r a ms)
      then show ?thesis using True by (simp add: resume_AtTimer waitUntilCanRequest_daily)
    next
      case (AtAdmission r res)
      then show ?thesis using True
        by (cases res) (simp_all add: resume_AtAdmission_None resume_AtAdmission_Some continue_daily)
    next
      case (AtExecute r)
      then show ?thesis using True by (simp add: resume_AtExecute continue_daily)
    qed
  qed
qed

lemma resume_storage_full_daily:
  "dailyCount s \<le> dailyCount (resume_storage_full i now s)"
  "dailyResetTime (resume_storage_full i now s) = dailyResetTime s"
  using resume_storage_full_cases [of i now s] by (auto simp: continue_daily)

lemma step_daily:
  assumes "(\<forall>nxt. act \<noteq> CheckDailyReset nxt) \<or> now < dailyResetTime s"
  shows "dailyCount s \<le> dailyCount (step (now, act) s)"
    and "dailyResetTime (step (now, act) s) = dailyResetTime s"
proof -
  have g: "snd (getQueueStatus now s) = snd (canMakeRequest now (prune now s))"
    by (simp add: getQueueStatus_def Let_def prune_def split: prod.splits)
  show "dailyCount s \<le> dailyCount (step (now, act) s)"
    using assms
    by (cases act)
       (simp_all add: enqueue_def Let_def processQueue_daily resume_daily checkDailyReset_def
          clearQueue_def g canMakeRequest_snd resume_storage_full_daily)
  show "dailyResetTime (step (now, act) s) = dailyResetTime s"
    using assms
    by (cases act)
       (simp_all add: enqueue_def Let_def processQueue_daily resume_daily checkDailyReset_def
          clearQueue_def g canMakeRequest_snd resume_storage_full_daily)
qed

text \<open>
  C1. In a state where \<^verbatim>\<open>dailyCount\<close> has reached \<^verbatim>\<open>MAX_DAILY_REQUESTS\<close> = 500:
  \<^item> \<^verbatim>\<open>canMakeRequest\<close> refuses with the daily-limit reason, and \<^verbatim>\<open>waitUntilCanRequest\<close>
    throws that reason at once, on any pass of its loop, without waiting;
  \<^item> a request enqueued on the idle limiter is rejected with that error at the
    next resumption of the drain, and no call is recorded;
  \<^item> every step other than a \<^verbatim>\<open>checkDailyReset\<close> that finds the reset time reached
    leaves \<^verbatim>\<open>dailyCount\<close> at 500 or more and the reset time as it is;
  \<^item> \<^verbatim>\<open>checkDailyReset\<close> at or after the recorded reset time sets \<^verbatim>\<open>dailyCount\<close> to 0
    and records the new reset time; the admission check then no longer refuses
    for the daily limit, and admits when the history is empty.
\<close>

theorem c1_daily_quota_exhausted:
  assumes "MAX_DAILY_REQUESTS \<le> dailyCount s"
  shows "MAX_DAILY_REQUESTS = 500
    \<and> canMakeRequest now s = (Some DailyLimitReached, s)
    \<and> (a < maxAttempts \<longrightarrow>
         waitUntilCanRequest now a s = (WaitThrow (ReasonError DailyLimitReached), s))
    \<and> (queue s = [] \<and> drains s = [] \<and> \<not> isProcessing s \<longrightarrow>
         drains (enqueue p now s)
           = [AtAdmission \<lparr>req_id = nextId s, priority = p, req_timestamp = now\<rparr>
                (Some (ReasonError DailyLimitReached))] \<and>
         settled (run [(now, Enqueue p), (now', Resume 0 outcome)] s)
           = settled s @ [(nextId s, Inl (ReasonError DailyLimitReached))] \<and>
         admitted (run [(now, Enqueue p), (now', Resume 0 outcome)] s) = admitted s)
    \<and> ((\<forall>nxt. act \<noteq> CheckDailyReset nxt) \<or> now < dailyResetTime s \<longrightarrow>
         MAX_DAILY_REQUESTS \<le> dailyCount (step (now, act) s) \<and>
         dailyResetTime (step (now, act) s) = dailyResetTime s)
    \<and> (dailyResetTime s \<le> now \<longrightarrow>
         dailyCount (checkDailyReset now nxt s) = 0 \<and>
         dailyResetTime (checkDailyReset now nxt s) = nxt \<and>
         fst (canMakeRequest now' (checkDailyReset now nxt s)) \<noteq> Some DailyLimitReached \<and>
         (requestHistory s = [] \<longrightarrow> fst (canMakeRequest now' (checkDailyReset now nxt s)) = None))"
proof -
  have c: "canMakeRequest now s = (Some DailyLimitReached, s)"
    using assms by (simp add: canMakeRequest_def)
  have w: "waitUntilCanRequest now a s = (WaitThrow (ReasonError DailyLimitReached), s)"
    if "a < maxAttempts"
    using that assms by (simp add: waitUntilCanRequest_def c)
  have i: "drains (enqueue p now s)
           = [AtAdmission \<lparr>req_id = nextId s, priority = p, req_timestamp = now\<rparr>
                (Some (ReasonError DailyLimitReached))] \<and>
         settled (run [(now, Enqueue p), (now', Resume 0 outcome)] s)
           = settled s @ [(nextId s, Inl (ReasonError DailyLimitReached))] \<and>
         admitted (run [(now, Enqueue p), (now', Resume 0 outcome)] s) = admitted s"
    if "queue s = [] \<and> drains s = [] \<and> \<not> isProcessing s"
    using that assms
    by (simp add: run_def enqueue_def processQueue_def drain_loop_def resume_def continue_def
        waitUntilCanRequest_def canMakeRequest_def insert_request_def suspend_def
        maxAttempts_def Let_def)
  have p: "MAX_DAILY_REQUESTS \<le> dailyCount (step (now, act) s) \<and>
         dailyResetTime (step (now, act) s) = dailyResetTime s"
    if "(\<forall>nxt. act \<noteq> CheckDailyReset nxt) \<or> now < dailyResetTime s"
    using step_daily [OF that] assms by simp
  have r: "dailyCount (checkDailyReset now nxt s) = 0 \<and>
         dailyResetTime (checkDailyReset now nxt s) = nxt \<and>
         fst (canMakeRequest now' (checkDailyReset now nxt s)) \<noteq> Some DailyLimitReached \<and>
         (requestHistory s = [] \<longrightarrow> fst (canMakeRequest now' (checkDailyReset now nxt s)) = None)"
    if "dailyResetTime s \<le> now"
    using that
    by (simp add: checkDailyReset_def canMakeRequest_def Let_def MAX_DAILY_REQUESTS_def
        MAX_REQUESTS_PER_MINUTE_def lastRequest_def split: option.splits)
  show ?thesis using c w i p r by (simp add: MAX_DAILY_REQUESTS_def)
qed

theorem c1_witness:
  "canMakeRequest 1000 (init 500 86400000 :: nat limiter)
     = (Some DailyLimitReached, init 500 86400000) \<and>
   waitUntilCanRequest 1000 0 (init 500 86400000 :: nat limiter)
     = (WaitThrow (ReasonError DailyLimitReached), init 500 86400000) \<and>
   settled (run [(1000, Enqueue 10), (1001, Resume 0 (Inr 7))] (init 500 86400000 :: nat limiter))
     = [(0, Inl (ReasonError DailyLimitReached))] \<and>
   dailyCount (step (1000, CheckDailyReset 172800000) (init 500 86400000 :: nat limiter)) = 500 \<and>
   dailyCount (checkDailyReset 86400000 172800000 (init 500 86400000 :: nat limiter)) = 0 \<and>
   fst (canMakeRequest 86400001
     (checkDailyReset 86400000 172800000 (init 500 86400000 :: nat limiter))) = None"
proof -
  have d: "MAX_DAILY_REQUESTS \<le> dailyCount (init 500 86400000 :: nat limiter)"
    by (simp add: init_def MAX_DAILY_REQUESTS_def)
  show ?thesis
    using c1_daily_quota_exhausted [OF d, where now = 1000 and a = 0 and p = 10
        and now' = 1001 and outcome = "Inr 7" and act = "CheckDailyReset 172800000"
        and nxt = 172800000]
      c1_daily_quota_exhausted [OF d, where now = 86400000 and a = 0 and p = 10
        and now' = 86400001 and outcome = "Inr 7" and act = "ClearQueue"
        and nxt = 172800000]
    by (simp add: init_def maxAttempts_def checkDailyReset_def)
qed

text \<open>Where \<^verbatim>\<open>enqueue\<close> inserts, and the order this keeps.\<close>

lemma findIndex_None: "findIndex P xs = None \<longleftrightarrow> (\<forall>x\<in>set xs. \<not> P x)"
  by (induction xs) auto

lemma findIndex_Some:
  "findIndex P xs = Some i \<longleftrightarrow> i < length xs \<and> P (xs ! i) \<and> (\<forall>j<i. \<not> P (xs ! j))"
proof (induction xs arbitrary: i)
  case Nil
  then show ?case by simp
next
  case (Cons x xs)
  show ?case
  proof (cases "P x")
    case True
    then show ?thesis by (cases i) auto
  next
    case False
    show ?thesis
    proof (cases i)
      case 0
      then show ?thesis using False by auto
    next
      case (Suc k)
      have "(\<forall>j<Suc k. \<not> P ((x # xs) ! j)) \<longleftrightarrow> (\<forall>j<k. \<not> P (xs ! j))"
        using False by (auto simp: less_Suc_eq_0_disj)
      then show ?thesis using False Suc Cons.IH [of k] by auto
    qed
  qed
qed

lemma insert_request_append:
  "(\<forall>x\<in>set q. priority r \<le> priority x) \<Longrightarrow> insert_request r q = q @ [r]"
proof -
  assume "\<forall>x\<in>set q. priority r \<le> priority x"
  then have "findIndex (\<lambda>x. priority x < priority r) q = None"
    by (auto simp: findIndex_None)
  then show ?thesis by (simp add: insert_request_def)
qed

lemma insert_request_at:
  assumes "i < length q" and "priority (q ! i) < priority r"
    and "\<forall>j<i. priority r \<le> priority (q ! j)"
  shows "insert_request r q = take i q @ r # drop i q"
proof -
  have "findIndex (\<lambda>x. priority x < priority r) q = Some i"
    using assms by (auto simp: findIndex_Some)
  then show ?thesis by (simp add: insert_request_def)
qed

lemma insert_request_split:
  assumes "sorted_wrt (\<lambda>a b. priority b \<le> priority a) q"
  shows "\<exists>xs ys. q = xs @ ys \<and> insert_request r q = xs @ r # ys \<and>
           (\<forall>x\<in>set xs. priority r \<le> priority x) \<and> (\<forall>y\<in>set ys. priority y < priority r)"
proof (cases "findIndex (\<lambda>x. priority x < priority r) q")
  case None
  then have "\<forall>x\<in>set q. priority r \<le> priority x" by (auto simp: findIndex_None)
  then show ?thesis using None
    by (intro exI [of _ q] exI [of _ "[]"]) (simp add: insert_request_def)
next
  case (Some i)
  then have i: "i < length q" "priority (q ! i) < priority r"
    "\<forall>j<i. priority r \<le> priority (q ! j)"
    by (auto simp: findIndex_Some)
  have "\<forall>x\<in>set (take i q). priority r \<le> priority x"
    using i by (auto simp: in_set_conv_nth)
  moreover have "\<forall>y\<in>set (drop i q). priority y < priority r"
  proof
    fix y assume "y \<in> set (drop i q)"
    then obtain k where k: "k < length q - i" "y = q ! (i + k)"
      by (auto simp: in_set_conv_nth)
    have "priority (q ! (i + k)) \<le> priority (q ! i)"
    proof (cases k)
      case 0
      then show ?thesis by simp
    next
      case (Suc n)
      then show ?thesis using assms k(1) by (simp add: sorted_wrt_iff_nth_less)
    qed
    then show "priority y < priority r" using i(2) k(2) by simp
  qed
  moreover have "q = take i q @ drop i q" by simp
  ultimately show ?thesis using Some
    by (intro exI [of _ "take i q"] exI [of _ "drop i q"]) (simp add: insert_request_def)
qed

lemma order_inv_insert:
  assumes "order_inv s"
  shows "order_inv (s\<lparr>queue := insert_request \<lparr>req_id = nextId s, priority = p, req_timestamp = now\<rparr> (queue s),
                      nextId := Suc (nextId s)\<rparr>)"
proof -
  let ?r = "\<lparr>req_id = nextId s, priority = p, req_timestamp = now\<rparr>"
  have srt: "sorted_wrt (\<lambda>a b. priority b \<le> priority a) (queue s)"
    and ord: "sorted_wrt order_ok (popped s @ queue s)"
    and ids: "\<forall>r\<in>set (popped s @ queue s). req_id r < nextId s"
    using assms by (simp_all add: order_inv_def)
  obtain xs ys where q: "queue s = xs @ ys" "insert_request ?r (queue s) = xs @ ?r # ys"
    "\<forall>x\<in>set xs. priority ?r \<le> priority x" "\<forall>y\<in>set ys. priority y < priority ?r"
    using insert_request_split [OF srt, of ?r] by blast
  have before: "\<forall>x\<in>set (popped s @ xs). order_ok x ?r"
  proof
    fix x assume "x \<in> set (popped s @ xs)"
    then have "x \<in> set (popped s @ queue s)" using q(1) by auto
    then have "req_id x < nextId s" using ids by blast
    then show "order_ok x ?r" by (simp add: order_ok_def)
  qed
  have after: "\<forall>y\<in>set ys. order_ok ?r y"
  proof
    fix y assume y: "y \<in> set ys"
    then have "y \<in> set (popped s @ queue s)" using q(1) by auto
    then have "req_id y < nextId s" using ids by blast
    moreover have "priority y < p" using q(4) y by auto
    ultimately show "order_ok ?r y" by (simp add: order_ok_def)
  qed
  have "sorted_wrt order_ok (popped s @ xs @ ?r # ys)"
    using ord before after q(1) by (auto simp: sorted_wrt_append)
  moreover have "sorted_wrt (\<lambda>a b. priority b \<le> priority a) (xs @ ?r # ys)"
    using srt q(1,3,4) by (auto simp: sorted_wrt_append)
  moreover have "\<forall>r\<in>set (popped s @ xs @ ?r # ys). req_id r < Suc (nextId s)"
    using ids q(1) by (auto simp: ball_Un less_Suc_eq)
  ultimately show ?thesis using q(2) by (simp add: order_inv_def)
qed


lemma waitUntilCanRequest_order:
  "queue (snd (waitUntilCanRequest now a s)) = queue s"
  "popped (snd (waitUntilCanRequest now a s)) = popped s"
  "nextId (snd (waitUntilCanRequest now a s)) = nextId s"
  by (simp_all add: waitUntilCanRequest_snd)

lemma drain_loop_order:
  "popped (snd (drain_loop now s)) @ queue (snd (drain_loop now s)) = popped s @ queue s"
  "nextId (snd (drain_loop now s)) = nextId s"
  "\<exists>k. queue (snd (drain_loop now s)) = drop k (queue s)"
proof -
  show "popped (snd (drain_loop now s)) @ queue (snd (drain_loop now s)) = popped s @ queue s"
    by (cases "queue s") (simp_all add: drain_loop_Nil drain_loop_Cons waitUntilCanRequest_order)
  show "nextId (snd (drain_loop now s)) = nextId s"
    by (cases "queue s") (simp_all add: drain_loop_Nil drain_loop_Cons waitUntilCanRequest_order)
  show "\<exists>k. queue (snd (drain_loop now s)) = drop k (queue s)"
  proof (cases "queue s")
    case Nil
    then show ?thesis by (simp add: drain_loop_Nil)
  next
    case (Cons r rest)
    then have "queue (snd (drain_loop now s)) = drop 1 (queue s)"
      by (simp add: drain_loop_Cons waitUntilCanRequest_order)
    then show ?thesis by blast
  qed
qed

lemma order_inv_cong:
  assumes "order_inv s" and "popped s' @ queue s' = popped s @ queue s"
    and "nextId s' = nextId s" and "\<exists>k. queue s' = drop k (queue s)"
  shows "order_inv s'"
proof -
  obtain k where k: "queue s' = drop k (queue s)" using assms(4) by blast
  have "sorted_wrt (\<lambda>a b. priority b \<le> priority a) (drop k (queue s))"
    using assms(1) by (simp add: order_inv_def sorted_wrt_drop)
  then show ?thesis using assms(1,2,3) k by (simp add: order_inv_def)
qed

lemma order_inv_drain_loop:
  assumes "order_inv s"
  shows "order_inv (snd (drain_loop now s))"
  by (rule order_inv_cong [OF assms drain_loop_order(1) drain_loop_order(2) drain_loop_order(3)])

lemma order_inv_continue:
  assumes "order_inv s"
  shows "order_inv (continue i now s)"
proof -
  obtain d s1 where dl: "drain_loop now s = (d, s1)" by (cases "drain_loop now s")
  have "order_inv s1" using order_inv_drain_loop [OF assms, of now] dl by simp
  then show ?thesis by (cases d) (simp_all add: continue_def dl order_inv_def)
qed

lemma order_inv_processQueue:
  assumes "order_inv s"
  shows "order_inv (processQueue now s)"
proof (cases "isProcessing s \<or> queue s = []")
  case True
  then show ?thesis using assms by (simp add: processQueue_def)
next
  case False
  obtain d s1 where dl: "drain_loop now (s\<lparr>isProcessing := True\<rparr>) = (d, s1)"
    by (cases "drain_loop now (s\<lparr>isProcessing := True\<rparr>)")
  have "order_inv (s\<lparr>isProcessing := True\<rparr>)" using assms by (simp add: order_inv_def)
  then have "order_inv s1" using order_inv_drain_loop [of "s\<lparr>isProcessing := True\<rparr>" now] dl by simp
  then show ?thesis using False by (cases d) (simp_all add: processQueue_def dl order_inv_def)
qed

lemma order_inv_resume: "order_inv s \<Longrightarrow> order_inv (resume i now outcome s)"
proof -
  assume a: "order_inv s"
  show ?thesis
  proof (cases "i < length (drains s)")
    case False
    then show ?thesis using a by (simp add: resume_idle)
  next
    case True
    show ?thesis
    proof (cases "drains s ! i")
      case (AtTimer r n ms)
      then show ?thesis using True a
        by (simp add: resume_AtTimer order_inv_def waitUntilCanRequest_order)
    next
      case (AtAdmission r res)
      have "order_inv (s\<lparr>settled := x\<rparr>)" for x using a by (simp add: order_inv_def)
      then show ?thesis using True a AtAdmission
        by (cases res)
           (simp_all add: resume_AtAdmission_None resume_AtAdmission_Some order_inv_continue,
            simp add: order_inv_def)
    next
      case (AtExecute r)
      have "order_inv (s\<lparr>settled := x\<rparr>)" for x using a by (simp add: order_inv_def)
      then show ?thesis using True AtExecute by (simp add: resume_AtExecute order_inv_continue)
    qed
  qed
qed

lemma order_inv_resume_storage_full:
  assumes "order_inv s"
  shows "order_inv (resume_storage_full i now s)"
proof -
  have "order_inv (s\<lparr>requestHistory := h, dailyCount := c, admitted := a, settled := x\<rparr>)"
    for h c a x
    using assms by (simp add: order_inv_def)
  then show ?thesis
    using resume_storage_full_cases [of i now s] assms order_inv_continue by fastforce
qed

lemma order_inv_step: "order_inv s \<Longrightarrow> order_inv (step ev s)"
proof -
  assume a: "order_inv s"
  obtain now act where ev: "ev = (now, act)" by (cases ev)
  have g: "snd (getQueueStatus now s) = snd (canMakeRequest now (prune now s))"
    by (simp add: getQueueStatus_def Let_def prune_def split: prod.splits)
  show ?thesis
  proof (cases act)
    case (Enqueue p)
    then show ?thesis using ev order_inv_insert [OF a]
      by (simp add: enqueue_def Let_def order_inv_processQueue)
  next
    case (Resume i outcome)
    then show ?thesis using ev a by (simp add: order_inv_resume)
  next
    case (ResumeStorageFull i)
    then show ?thesis using ev a by (simp add: order_inv_resume_storage_full)
  next
    case (CheckDailyReset nxt)
    then show ?thesis using ev a by (simp add: checkDailyReset_def order_inv_def)
  next
    case GetQueueStatus
    then show ?thesis using ev a by (simp add: g canMakeRequest_snd order_inv_def)
  next
    case ClearQueue
    then show ?thesis using ev a by (simp add: clearQueue_def order_inv_def sorted_wrt_append)
  qed
qed

lemma order_inv_run: "order_inv s \<Longrightarrow> order_inv (run evs s)"
  unfolding run_def by (induction evs arbitrary: s) (simp_all add: order_inv_step)

lemma processQueue_order:
  "popped (processQueue now s) @ queue (processQueue now s) = popped s @ queue s"
proof (cases "isProcessing s \<or> queue s = []")
  case True
  then show ?thesis by (simp add: processQueue_def)
next
  case False
  let ?s = "s\<lparr>isProcessing := True\<rparr>"
  obtain d s1 where dl: "drain_loop now ?s = (d, s1)" by (cases "drain_loop now ?s")
  have "popped s1 @ queue s1 = popped ?s @ queue ?s"
    using drain_loop_order(1) [of now ?s] dl by simp
  then show ?thesis using False dl by (cases d) (simp_all add: processQueue_def)
qed

lemma enqueue_order:
  "popped (enqueue p now s) @ queue (enqueue p now s)
     = popped s @ insert_request \<lparr>req_id = nextId s, priority = p, req_timestamp = now\<rparr> (queue s)"
  by (simp add: enqueue_def Let_def processQueue_order)

lemma enqueue_busy:
  "isProcessing s \<Longrightarrow>
   queue (enqueue p now s)
     = insert_request \<lparr>req_id = nextId s, priority = p, req_timestamp = now\<rparr> (queue s) \<and>
   popped (enqueue p now s) = popped s"
  by (simp add: enqueue_def Let_def processQueue_def)

lemma drain_loop_takes_head:
  "queue s = h # rest \<Longrightarrow>
   popped (snd (drain_loop now s)) = popped s @ [h] \<and> queue (snd (drain_loop now s)) = rest"
  by (simp add: drain_loop_Cons waitUntilCanRequest_order)

text \<open>
  C4. In every state \<open>S\<close> the limiter reaches:
  \<^item> take the requests in the order in which the drain shifted them off the
    queue, followed by the requests still queued, in queue order: a request never
    comes before one of higher priority that arrived earlier, and requests of
    equal priority are in arrival order;
  \<^item> the queue is by descending priority;
  \<^item> \<^verbatim>\<open>enqueue\<close> puts the new request, numbered next in arrival order, into the
    queue where \<open>insert_request\<close> says (when no drain is active it is shifted off
    at once, so the shifted requests followed by the queue are the old ones with
    the queue after the insertion; during a drain the queue itself is the old
    queue after the insertion);
  \<^item> the drain shifts the head of the queue;
  \<^item> \<open>insert_request\<close> inserts at the first index that holds a strictly lower
    priority, and appends when there is none.
\<close>

theorem c4_priority_then_arrival_order:
  "sorted_wrt order_ok (popped (run evs (init dc rt)) @ queue (run evs (init dc rt)))
   \<and> sorted_wrt (\<lambda>a b. priority b \<le> priority a) (queue (run evs (init dc rt)))
   \<and> popped (enqueue p now (run evs (init dc rt))) @ queue (enqueue p now (run evs (init dc rt)))
       = popped (run evs (init dc rt)) @
         insert_request \<lparr>req_id = nextId (run evs (init dc rt)), priority = p, req_timestamp = now\<rparr>
           (queue (run evs (init dc rt)))
   \<and> (isProcessing (run evs (init dc rt)) \<longrightarrow>
        queue (enqueue p now (run evs (init dc rt)))
          = insert_request \<lparr>req_id = nextId (run evs (init dc rt)), priority = p, req_timestamp = now\<rparr>
              (queue (run evs (init dc rt))))
   \<and> (queue (run evs (init dc rt)) = h # rest \<longrightarrow>
        popped (snd (drain_loop now (run evs (init dc rt)))) = popped (run evs (init dc rt)) @ [h] \<and>
        queue (snd (drain_loop now (run evs (init dc rt)))) = rest)
   \<and> ((\<forall>x\<in>set q. priority r \<le> priority x) \<longrightarrow> insert_request r q = q @ [r])
   \<and> (i < length q \<and> priority (q ! i) < priority r \<and> (\<forall>j<i. priority r \<le> priority (q ! j))
        \<longrightarrow> insert_request r q = take i q @ r # drop i q)"
proof -
  let ?S = "run evs (init dc rt)"
  have "order_inv (init dc rt)" by (simp add: order_inv_def init_def)
  then have "order_inv ?S" by (rule order_inv_run)
  then have "sorted_wrt order_ok (popped ?S @ queue ?S)"
    and "sorted_wrt (\<lambda>a b. priority b \<le> priority a) (queue ?S)"
    unfolding order_inv_def by blast+
  moreover have "popped (enqueue p now ?S) @ queue (enqueue p now ?S)
       = popped ?S @ insert_request \<lparr>req_id = nextId ?S, priority = p, req_timestamp = now\<rparr> (queue ?S)"
    by (rule enqueue_order)
  moreover have "isProcessing ?S \<longrightarrow> queue (enqueue p now ?S)
          = insert_request \<lparr>req_id = nextId ?S, priority = p, req_timestamp = now\<rparr> (queue ?S)"
    using enqueue_busy by blast
  moreover have "queue ?S = h # rest \<longrightarrow>
        popped (snd (drain_loop now ?S)) = popped ?S @ [h] \<and> queue (snd (drain_loop now ?S)) = rest"
    using drain_loop_takes_head by blast
  moreover have "(\<forall>x\<in>set q. priority r \<le> priority x) \<longrightarrow> insert_request r q = q @ [r]"
    using insert_request_append by blast
  moreover have "i < length q \<and> priority (q ! i) < priority r \<and> (\<forall>j<i. priority r \<le> priority (q ! j))
        \<longrightarrow> insert_request r q = take i q @ r # drop i q"
    using insert_request_at by blast
  ultimately show ?thesis by blast
qed

theorem c4_witness:
  "queue (enqueue 5 2000
      (run [(1000, Enqueue 5), (1001, Enqueue 2), (1002, Enqueue 10), (1003, Enqueue 5),
            (1004, Enqueue 10), (1005, Resume 0 (Inr 0)), (1500, Resume 0 (Inr 7))]
         (init 0 86400000 :: nat limiter)))
     = [\<lparr>req_id = 4, priority = 10, req_timestamp = 1004\<rparr>,
        \<lparr>req_id = 3, priority = 5, req_timestamp = 1003\<rparr>,
        \<lparr>req_id = 5, priority = 5, req_timestamp = 2000\<rparr>,
        \<lparr>req_id = 1, priority = 2, req_timestamp = 1001\<rparr>] \<and>
   queue (enqueue 2 2000
      (run [(1000, Enqueue 5), (1001, Enqueue 2), (1002, Enqueue 10), (1003, Enqueue 5),
            (1004, Enqueue 10), (1005, Resume 0 (Inr 0)), (1500, Resume 0 (Inr 7))]
         (init 0 86400000 :: nat limiter)))
     = [\<lparr>req_id = 4, priority = 10, req_timestamp = 1004\<rparr>,
        \<lparr>req_id = 3, priority = 5, req_timestamp = 1003\<rparr>,
        \<lparr>req_id = 1, priority = 2, req_timestamp = 1001\<rparr>,
        \<lparr>req_id = 5, priority = 2, req_timestamp = 2000\<rparr>] \<and>
   popped (snd (drain_loop 2000
      (run [(1000, Enqueue 5), (1001, Enqueue 2), (1002, Enqueue 10), (1003, Enqueue 5),
            (1004, Enqueue 10), (1005, Resume 0 (Inr 0)), (1500, Resume 0 (Inr 7))]
         (init 0 86400000 :: nat limiter))))
     = [\<lparr>req_id = 0, priority = 5, req_timestamp = 1000\<rparr>,
        \<lparr>req_id = 2, priority = 10, req_timestamp = 1002\<rparr>,
        \<lparr>req_id = 4, priority = 10, req_timestamp = 1004\<rparr>] \<and>
   sorted_wrt order_ok
     (popped (run [(1000, Enqueue 5), (1001, Enqueue 2), (1002, Enqueue 10), (1003, Enqueue 5),
                   (1004, Enqueue 10), (1005, Resume 0 (Inr 0)), (1500, Resume 0 (Inr 7))]
                (init 0 86400000 :: nat limiter)) @
      queue (run [(1000, Enqueue 5), (1001, Enqueue 2), (1002, Enqueue 10), (1003, Enqueue 5),
                   (1004, Enqueue 10), (1005, Resume 0 (Inr 0)), (1500, Resume 0 (Inr 7))]
                (init 0 86400000 :: nat limiter)))"
proof -
  let ?evs = "[(1000, Enqueue 5), (1001, Enqueue 2), (1002, Enqueue 10), (1003, Enqueue 5),
               (1004, Enqueue 10), (1005, Resume 0 (Inr 0)), (1500, Resume 0 (Inr 7))]
               :: nat event list"
  let ?S = "run ?evs (init 0 86400000)"
  let ?r4 = "\<lparr>req_id = 4, priority = 10, req_timestamp = 1004\<rparr>"
  let ?r3 = "\<lparr>req_id = 3, priority = 5, req_timestamp = 1003\<rparr>"
  let ?r1 = "\<lparr>req_id = 1, priority = 2, req_timestamp = 1001\<rparr>"
  let ?a = "\<lparr>req_id = 5, priority = 5, req_timestamp = 2000\<rparr>"
  let ?b = "\<lparr>req_id = 5, priority = 2, req_timestamp = 2000\<rparr>"
  have q: "queue ?S = [?r4, ?r3, ?r1]" and n: "nextId ?S = 5" and p: "isProcessing ?S"
    and pp: "popped ?S = [\<lparr>req_id = 0, priority = 5, req_timestamp = 1000\<rparr>,
                          \<lparr>req_id = 2, priority = 10, req_timestamp = 1002\<rparr>]"
    by (simp_all add: limiter_defs)
  note a = c4_priority_then_arrival_order
      [where evs = ?evs and dc = 0 and rt = 86400000 and p = 5 and now = 2000
        and h = ?r4 and rest = "[?r3, ?r1]" and q = "[?r4, ?r3, ?r1]" and r = ?a and i = 2]
  note b = c4_priority_then_arrival_order
      [where evs = ?evs and dc = 0 and rt = 86400000 and p = 2 and now = 2000
        and h = ?r4 and rest = "[?r3, ?r1]" and q = "[?r4, ?r3, ?r1]" and r = ?b and i = 0]
  have h2: "2 < length [?r4, ?r3, ?r1] \<and> priority ([?r4, ?r3, ?r1] ! 2) < priority ?a
      \<and> (\<forall>j<2. priority ?a \<le> priority ([?r4, ?r3, ?r1] ! j))"
    by (simp add: less_Suc_eq numeral_2_eq_2)
  have h1: "\<forall>x\<in>set [?r4, ?r3, ?r1]. priority ?b \<le> priority x" by simp
  have ia: "insert_request ?a [?r4, ?r3, ?r1] = take 2 [?r4, ?r3, ?r1] @ ?a # drop 2 [?r4, ?r3, ?r1]"
    using a h2 by blast
  have ib: "insert_request ?b [?r4, ?r3, ?r1] = [?r4, ?r3, ?r1] @ [?b]"
    using b h1 by blast
  have ea: "queue (enqueue 5 2000 ?S) = insert_request \<lparr>req_id = nextId ?S, priority = 5, req_timestamp = 2000\<rparr> (queue ?S)"
    using a p by blast
  have eb: "queue (enqueue 2 2000 ?S) = insert_request \<lparr>req_id = nextId ?S, priority = 2, req_timestamp = 2000\<rparr> (queue ?S)"
    using b p by blast
  have hd: "popped (snd (drain_loop 2000 ?S)) = popped ?S @ [?r4]"
    using a q by blast
  have so: "sorted_wrt order_ok (popped ?S @ queue ?S)" using a by blast
  have c1: "queue (enqueue 5 2000 ?S) = [?r4, ?r3, ?a, ?r1]"
    using ea ia by (simp add: q n)
  have c2: "queue (enqueue 2 2000 ?S) = [?r4, ?r3, ?r1, ?b]"
    using eb ib by (simp add: q n)
  have c3: "popped (snd (drain_loop 2000 ?S)) =
      [\<lparr>req_id = 0, priority = 5, req_timestamp = 1000\<rparr>,
       \<lparr>req_id = 2, priority = 10, req_timestamp = 1002\<rparr>, ?r4]"
    using hd by (simp add: pp)
  show ?thesis using c1 c2 c3 so by blast
qed


lemma waitUntilCanRequest_ledger_fields:
  "queue (snd (waitUntilCanRequest now a s)) = queue s"
  "drains (snd (waitUntilCanRequest now a s)) = drains s"
  "settled (snd (waitUntilCanRequest now a s)) = settled s"
  "discarded (snd (waitUntilCanRequest now a s)) = discarded s"
  "nextId (snd (waitUntilCanRequest now a s)) = nextId s"
  "isProcessing (snd (waitUntilCanRequest now a s)) = isProcessing s"
  by (simp_all add: waitUntilCanRequest_snd)

lemma drain_request_suspend [simp]: "drain_request (suspend r a w) = r"
  by (cases w) (simp_all add: suspend_def)




lemma drain_loop_ledger_fields:
  "drains (snd (drain_loop now s)) = drains s"
  "settled (snd (drain_loop now s)) = settled s"
  "discarded (snd (drain_loop now s)) = discarded s"
  "nextId (snd (drain_loop now s)) = nextId s"
  by (cases "queue s"; simp add: drain_loop_Nil drain_loop_Cons waitUntilCanRequest_ledger_fields)+





























lemma drain_loop_settled: "settled (snd (drain_loop now s)) = settled s"
  by (rule drain_loop_ledger_fields)








lemma wait_inv_fields [simp]:
  "wait_inv (s\<lparr>settled := x\<rparr>) = wait_inv s"
  "wait_inv (s\<lparr>requestHistory := h\<rparr>) = wait_inv s"
  "wait_inv (s\<lparr>dailyCount := c\<rparr>) = wait_inv s"
  "wait_inv (s\<lparr>admitted := a\<rparr>) = wait_inv s"
  "wait_inv (s\<lparr>queue := q\<rparr>) = wait_inv s"
  "wait_inv (s\<lparr>nextId := n\<rparr>) = wait_inv s"
  "wait_inv (s\<lparr>av_daily_count := c\<rparr>) = wait_inv s"
  "wait_inv (s\<lparr>dailyResetTime := c\<rparr>) = wait_inv s"
  "wait_inv (s\<lparr>discarded := z\<rparr>) = wait_inv s"
  by (simp_all add: wait_inv_def)








section \<open>Properties of the facade and of invalidation\<close>

text \<open>What the closure does with an object body, and \<^verbatim>\<open>fetchWithRateLimit\<close> on a miss.\<close>

lemma fetch_action_object:
  assumes "ok response" and "json_body response = Some (JObj kvs)"
  shows "fetch_action response =
     (case signal (map_of kvs ''Error Message'') of
        Some v \<Rightarrow> Inl (InvalidSymbolOrApiError v)
      | None \<Rightarrow>
          (case signal (map_of kvs ''Note'') of
             Some v \<Rightarrow> Inl (ApiRateLimitExceeded v)
           | None \<Rightarrow>
               (case signal (map_of kvs ''Information'') of
                  Some v \<Rightarrow> Inl (ApiLimitReached v)
                | None \<Rightarrow> Inr (JObj kvs))))"
  using assms by (simp add: fetch_action_def split: option.splits)

lemma fetchWithRateLimit_miss:
  assumes "signal (fst (cache_get key now c)) = None"
  shows "fetchWithRateLimit key ty now (Inr response) now' w c =
     (case fetch_action response of
        Inl e \<Rightarrow> (Inl e, snd (cache_get key now c), True)
      | Inr d \<Rightarrow> (Inr d, cache_set key d ty now' w (snd (cache_get key now c)), True))"
proof -
  obtain x c1 where g: "cache_get key now c = (x, c1)" by (cases "cache_get key now c")
  then have "signal x = None" using assms by simp
  then show ?thesis by (simp add: fetchWithRateLimit_def g split: sum.splits)
qed

text \<open>
  C6, as the code has it. The response has status ok and its body is an object
  in which \<^verbatim>\<open>Error Message\<close>, \<^verbatim>\<open>Note\<close> or \<^verbatim>\<open>Information\<close> is present with a truthy
  value (a non-empty string, say). Then the closure rejects: with the
  invalid-symbol error when it is \<^verbatim>\<open>Error Message\<close>, else with the rate-limit error
  when it is \<^verbatim>\<open>Note\<close>, else with the limit error for \<^verbatim>\<open>Information\<close>; and
  \<^verbatim>\<open>fetchWithRateLimit\<close>, having missed the cache, rejects with that error and
  writes nothing to the cache: the body is not returned as data.
\<close>

theorem c6_vendor_error_in_body:
  assumes "ok response" and "json_body response = Some (JObj kvs)"
    and "signal (map_of kvs ''Error Message'') \<noteq> None \<or> signal (map_of kvs ''Note'') \<noteq> None \<or>
         signal (map_of kvs ''Information'') \<noteq> None"
  shows "(\<forall>v. signal (map_of kvs ''Error Message'') = Some v
            \<longrightarrow> fetch_action response = Inl (InvalidSymbolOrApiError v))
       \<and> (\<forall>v. signal (map_of kvs ''Error Message'') = None \<and> signal (map_of kvs ''Note'') = Some v
            \<longrightarrow> fetch_action response = Inl (ApiRateLimitExceeded v))
       \<and> (\<forall>v. signal (map_of kvs ''Error Message'') = None \<and> signal (map_of kvs ''Note'') = None \<and>
              signal (map_of kvs ''Information'') = Some v
            \<longrightarrow> fetch_action response = Inl (ApiLimitReached v))
       \<and> (\<exists>e. fetch_action response = Inl e \<and>
              (signal (fst (cache_get key now c)) = None
                 \<longrightarrow> fetchWithRateLimit key ty now (Inr response) now' w c
                       = (Inl e, snd (cache_get key now c), True)))"
proof -
  note f = fetch_action_object [OF assms(1,2)]
  have a: "\<forall>v. signal (map_of kvs ''Error Message'') = Some v
            \<longrightarrow> fetch_action response = Inl (InvalidSymbolOrApiError v)"
    by (simp add: f)
  have b: "\<forall>v. signal (map_of kvs ''Error Message'') = None \<and> signal (map_of kvs ''Note'') = Some v
            \<longrightarrow> fetch_action response = Inl (ApiRateLimitExceeded v)"
    by (simp add: f)
  have c: "\<forall>v. signal (map_of kvs ''Error Message'') = None \<and> signal (map_of kvs ''Note'') = None \<and>
              signal (map_of kvs ''Information'') = Some v
            \<longrightarrow> fetch_action response = Inl (ApiLimitReached v)"
    by (simp add: f)
  have "\<exists>e. fetch_action response = Inl e"
    using assms(3) by (auto simp: f split: option.splits)
  then obtain e where e: "fetch_action response = Inl e" by blast
  have "fetchWithRateLimit key ty now (Inr response) now' w c
                       = (Inl e, snd (cache_get key now c), True)"
    if "signal (fst (cache_get key now c)) = None"
    using fetchWithRateLimit_miss [OF that, of ty response now' w] e by simp
  then have d: "\<exists>e. fetch_action response = Inl e \<and>
              (signal (fst (cache_get key now c)) = None
                 \<longrightarrow> fetchWithRateLimit key ty now (Inr response) now' w c
                       = (Inl e, snd (cache_get key now c), True))"
    using e by (intro exI [of _ e]) simp
  show ?thesis by (intro conjI a b c d)
qed

text \<open>
  C6 as stated fails: the three tests are tests of truthiness, so a body that
  contains the key \<^verbatim>\<open>Note\<close> with the empty string passes them, comes back as data and
  is written to the cache.
\<close>

theorem c6_counterexample:
  "fetch_action \<lparr>ok = True, statusText = ''OK'', json_body = Some (JObj [(''Note'', JStr '''')])\<rparr>
     = Inr (JObj [(''Note'', JStr '''')]) \<and>
   fetchWithRateLimit ''quote_AAPL'' QUOTE 1000
     (Inr \<lparr>ok = True, statusText = ''OK'', json_body = Some (JObj [(''Note'', JStr '''')])\<rparr>)
     2000 True \<lparr>memoryCache = [], localStorage = []\<rparr>
     = (Inr (JObj [(''Note'', JStr '''')]),
        \<lparr>memoryCache = [(''quote_AAPL'',
            \<lparr>data = JObj [(''Note'', JStr '''')], timestamp = 2000, expiresAt = 62000\<rparr>)],
         localStorage = [(''av_cache_quote_AAPL'',
            StoredEntry \<lparr>data = JObj [(''Note'', JStr '''')], timestamp = 2000, expiresAt = 62000\<rparr>)]\<rparr>,
        True)"
  by (simp add: fetch_action_def fetchWithRateLimit_def signal_def cache_get_def cache_set_def
      getStorageKey_def Let_def)


theorem c6_witness:
  "fetch_action \<lparr>ok = True, statusText = ''OK'', json_body = Some (JObj [(''Note'', JStr ''limit'')])\<rparr>
     = Inl (ApiRateLimitExceeded (JStr ''limit'')) \<and>
   fetchWithRateLimit ''quote_AAPL'' QUOTE 1000
     (Inr \<lparr>ok = True, statusText = ''OK'', json_body = Some (JObj [(''Note'', JStr ''limit'')])\<rparr>)
     2000 True \<lparr>memoryCache = [], localStorage = []\<rparr>
     = (Inl (ApiRateLimitExceeded (JStr ''limit'')), \<lparr>memoryCache = [], localStorage = []\<rparr>, True)"
proof -
  let ?r = "\<lparr>ok = True, statusText = ''OK'', json_body = Some (JObj [(''Note'', JStr ''limit'')])\<rparr>"
  let ?c = "\<lparr>memoryCache = [], localStorage = []\<rparr> :: json cache"
  have h1: "ok ?r" by simp
  have h2: "json_body ?r = Some (JObj [(''Note'', JStr ''limit'')])" by simp
  have n: "signal (map_of [(''Note'', JStr ''limit'')] ''Error Message'') = None"
    "signal (map_of [(''Note'', JStr ''limit'')] ''Note'') = Some (JStr ''limit'')"
    by (simp_all add: signal_def)
  have h3: "signal (map_of [(''Note'', JStr ''limit'')] ''Error Message'') \<noteq> None \<or>
      signal (map_of [(''Note'', JStr ''limit'')] ''Note'') \<noteq> None \<or>
      signal (map_of [(''Note'', JStr ''limit'')] ''Information'') \<noteq> None"
    using n by simp
  have g: "cache_get ''quote_AAPL'' 1000 ?c = (None, ?c)" by (simp add: cache_get_def)
  have m: "signal (fst (cache_get ''quote_AAPL'' 1000 ?c)) = None" by (simp add: g signal_def)
  note t = c6_vendor_error_in_body [OF h1 h2 h3, of "''quote_AAPL''" 1000 ?c QUOTE 2000 True]
  have a: "fetch_action ?r = Inl (ApiRateLimitExceeded (JStr ''limit''))" using t n by blast
  obtain e where e: "fetch_action ?r = Inl e"
    "fetchWithRateLimit ''quote_AAPL'' QUOTE 1000 (Inr ?r) 2000 True ?c
       = (Inl e, snd (cache_get ''quote_AAPL'' 1000 ?c), True)"
    using t m by blast
  have "e = ApiRateLimitExceeded (JStr ''limit'')" using a e(1) by simp
  then show ?thesis using a e(2) by (simp add: g)
qed

text \<open>A body without vendor error and without quote, through the facade.\<close>

lemma parse_quote_no_quote:
  assumes "\<forall>q. map_of kvs ''Global Quote'' = Some (JObj q) \<longrightarrow> map_of q ''01. symbol'' = None"
  shows "parse_quote symbol (JObj kvs) = Inl (NoQuoteData symbol)"
proof (cases "signal (map_of kvs ''Global Quote'')")
  case None
  then show ?thesis by (simp add: parse_quote_def)
next
  case (Some quote)
  then have m: "map_of kvs ''Global Quote'' = Some quote"
    by (auto simp: signal_def split: option.splits if_splits)
  have "get_prop quote ''01. symbol'' = Inr None \<or> get_prop quote ''01. symbol'' = Inl TypeError"
    using assms m by (cases quote) auto
  moreover have "quote \<noteq> JNull" using Some by (auto simp: signal_def split: option.splits if_splits)
  ultimately have "get_prop quote ''01. symbol'' = Inr None" by (cases quote) auto
  then show ?thesis using Some by (simp add: parse_quote_def signal_def)
qed

lemma fetch_action_clean:
  assumes "ok response" and "json_body response = Some (JObj kvs)"
    and "map_of kvs ''Error Message'' = None" and "map_of kvs ''Note'' = None"
    and "map_of kvs ''Information'' = None"
  shows "fetch_action response = Inr (JObj kvs)"
  using assms by (simp add: fetch_action_object signal_def)

lemma storage_after_set:
  "map_of (localStorage (cache_set k v ty t True c)) (getStorageKey k) =
     Some (StoredEntry \<lparr>data = v, timestamp = t, expiresAt = t + CACHE_DURATIONS ty\<rparr>)"
  by (simp add: cache_set_def Let_def update_conv')

lemma fetchWithRateLimit_hit:
  assumes "map_of (memoryCache c) key = Some e" and "now \<le> expiresAt e" and "truthy (data e)"
  shows "fetchWithRateLimit key ty now net now' w c = (Inr (data e), c, False)"
  using assms by (simp add: fetchWithRateLimit_def get_hit signal_def)

text \<open>
  C10. The response has status ok, its body is an object with none of the keys
  \<^verbatim>\<open>Error Message\<close>, \<^verbatim>\<open>Note\<close>, \<^verbatim>\<open>Information\<close>, and with no \<^verbatim>\<open>Global Quote\<close> object that
  has a \<^verbatim>\<open>01. symbol\<close> field; \<^verbatim>\<open>getQuote(symbol)\<close> missed the cache and got this
  response. Then it rejects with the no-quote-data error, a request was enqueued,
  and the body is in the cache under the quote key, expiring 60 seconds after the
  write (in the memory tier, and in the durable tier when that write succeeds).
  A later \<^verbatim>\<open>getQuote\<close> for a symbol with the same upper-case form, no later
  than that expiry, rejects with the no-quote-data error from the cached body,
  enqueues nothing, and leaves the cache as it is (so the same holds of the call
  after it).
\<close>

theorem c10_invalid_body_cached:
  assumes "ok response" and "json_body response = Some (JObj kvs)"
    and "map_of kvs ''Error Message'' = None" and "map_of kvs ''Note'' = None"
    and "map_of kvs ''Information'' = None"
    and "\<forall>q. map_of kvs ''Global Quote'' = Some (JObj q) \<longrightarrow> map_of q ''01. symbol'' = None"
    and "signal (fst (cache_get (''quote_'' @ toUpperCase symbol) now c)) = None"
    and "toUpperCase symbol' = toUpperCase symbol"
    and "t \<le> now' + CACHE_DURATIONS QUOTE"
  shows "fst (getQuote toUpperCase symbol now (Inr response) now' w c) = Inl (NoQuoteData symbol)
       \<and> snd (snd (getQuote toUpperCase symbol now (Inr response) now' w c))
       \<and> map_of (memoryCache (fst (snd (getQuote toUpperCase symbol now (Inr response) now' w c))))
            (''quote_'' @ toUpperCase symbol)
           = Some \<lparr>data = JObj kvs, timestamp = now', expiresAt = now' + CACHE_DURATIONS QUOTE\<rparr>
       \<and> (w \<longrightarrow>
            map_of (localStorage (fst (snd (getQuote toUpperCase symbol now (Inr response) now' w c))))
              (getStorageKey (''quote_'' @ toUpperCase symbol))
             = Some (StoredEntry
                 \<lparr>data = JObj kvs, timestamp = now', expiresAt = now' + CACHE_DURATIONS QUOTE\<rparr>))
       \<and> getQuote toUpperCase symbol' t later t' w'
             (fst (snd (getQuote toUpperCase symbol now (Inr response) now' w c)))
           = (Inl (NoQuoteData symbol'),
              fst (snd (getQuote toUpperCase symbol now (Inr response) now' w c)), False)
       \<and> CACHE_DURATIONS QUOTE = 60000"
proof -
  define key where "key = ''quote_'' @ toUpperCase symbol"
  let ?c0 = "snd (cache_get key now c)"
  let ?c1 = "cache_set key (JObj kvs) QUOTE now' w ?c0"
  let ?e = "\<lparr>data = JObj kvs, timestamp = now', expiresAt = now' + CACHE_DURATIONS QUOTE\<rparr>"
  have k': "''quote_'' @ toUpperCase symbol' = key" using assms(8) by (simp add: key_def)
  have miss: "signal (fst (cache_get key now c)) = None" using assms(7) by (simp add: key_def)
  have ga: "getQuote toUpperCase symbol a net a' x d =
      (case fetchWithRateLimit key QUOTE a net a' x d of
         (Inl e, c1, called) \<Rightarrow> (Inl e, c1, called)
       | (Inr response, c1, called) \<Rightarrow> (parse_quote symbol response, c1, called))"
    for a net a' x d
    unfolding getQuote_def Let_def key_def ..
  have gb: "getQuote toUpperCase symbol' a net a' x d =
      (case fetchWithRateLimit key QUOTE a net a' x d of
         (Inl e, c1, called) \<Rightarrow> (Inl e, c1, called)
       | (Inr response, c1, called) \<Rightarrow> (parse_quote symbol' response, c1, called))"
    for a net a' x d
    unfolding getQuote_def Let_def k' ..
  have fa: "fetch_action response = Inr (JObj kvs)" using assms(1-5) by (rule fetch_action_clean)
  have pq: "parse_quote s (JObj kvs) = Inl (NoQuoteData s)" for s
    using assms(6) by (rule parse_quote_no_quote)
  have f1: "fetchWithRateLimit key QUOTE now (Inr response) now' w c = (Inr (JObj kvs), ?c1, True)"
    using fetchWithRateLimit_miss [OF miss, of QUOTE response now' w] fa by simp
  have g1: "getQuote toUpperCase symbol now (Inr response) now' w c
      = (Inl (NoQuoteData symbol), ?c1, True)"
    by (simp add: ga f1 pq)
  have m: "map_of (memoryCache ?c1) key = Some ?e" by (rule memory_after_set)
  have f2: "fetchWithRateLimit key QUOTE t later t' w' ?c1 = (Inr (data ?e), ?c1, False)"
    using m assms(9) by (intro fetchWithRateLimit_hit) simp_all
  have g2: "getQuote toUpperCase symbol' t later t' w' ?c1
      = (Inl (NoQuoteData symbol'), ?c1, False)"
    using f2 by (simp add: gb pq)
  have m': "map_of (memoryCache ?c1) (''quote_'' @ toUpperCase symbol) = Some ?e"
    using m by (simp only: key_def)
  have "map_of (localStorage ?c1) (getStorageKey key) = Some (StoredEntry ?e)" if w
    using that storage_after_set [of key "JObj kvs" QUOTE now' ?c0] by simp
  then have d': "w \<longrightarrow> map_of (localStorage ?c1) (getStorageKey (''quote_'' @ toUpperCase symbol))
      = Some (StoredEntry ?e)"
    by (simp only: key_def) simp
  show ?thesis unfolding g1 using g2 m' d' by simp
qed


lemma upper_aapl: "ascii_toUpperCase ''AAPL'' = ascii_toUpperCase ''aapl''"
  by code_simp

theorem c10_witness:
  "fst (getQuote ascii_toUpperCase ''aapl'' 1000
      (Inr \<lparr>ok = True, statusText = ''OK'', json_body = Some (JObj [(''Global Quote'', JObj [])])\<rparr>)
      2000 True \<lparr>memoryCache = [], localStorage = []\<rparr>) = Inl (NoQuoteData ''aapl'') \<and>
   getQuote ascii_toUpperCase ''AAPL'' 30000 (Inl (NetworkError ''offline'')) 30001 True
     (fst (snd (getQuote ascii_toUpperCase ''aapl'' 1000
        (Inr \<lparr>ok = True, statusText = ''OK'', json_body = Some (JObj [(''Global Quote'', JObj [])])\<rparr>)
        2000 True \<lparr>memoryCache = [], localStorage = []\<rparr>)))
   = (Inl (NoQuoteData ''AAPL''),
      fst (snd (getQuote ascii_toUpperCase ''aapl'' 1000
        (Inr \<lparr>ok = True, statusText = ''OK'', json_body = Some (JObj [(''Global Quote'', JObj [])])\<rparr>)
        2000 True \<lparr>memoryCache = [], localStorage = []\<rparr>)),
      False)"
proof -
  let ?r = "\<lparr>ok = True, statusText = ''OK'', json_body = Some (JObj [(''Global Quote'', JObj [])])\<rparr>"
  let ?c = "\<lparr>memoryCache = [], localStorage = []\<rparr> :: json cache"
  have h1: "ok ?r" by simp
  have h2: "json_body ?r = Some (JObj [(''Global Quote'', JObj [])])" by simp
  have h3: "map_of [(''Global Quote'', JObj [])] ''Error Message'' = None" by simp
  have h4: "map_of [(''Global Quote'', JObj [])] ''Note'' = None" by simp
  have h5: "map_of [(''Global Quote'', JObj [])] ''Information'' = None" by simp
  have h6: "\<forall>q. map_of [(''Global Quote'', JObj [])] ''Global Quote'' = Some (JObj q)
      \<longrightarrow> map_of q ''01. symbol'' = None" by simp
  have h7: "signal (fst (cache_get (''quote_'' @ ascii_toUpperCase ''aapl'') 1000 ?c)) = None"
    by (simp add: cache_get_def signal_def)
  have h9: "(30000::int) \<le> 2000 + CACHE_DURATIONS QUOTE" by simp
  show ?thesis
    using c10_invalid_body_cached [where toUpperCase = ascii_toUpperCase and symbol = "''aapl''"
        and symbol' = "''AAPL''" and response = ?r and kvs = "[(''Global Quote'', JObj [])]"
        and now = 1000 and c = ?c and t = 30000 and now' = 2000 and w = True
        and later = "Inl (NetworkError ''offline'')" and t' = 30001 and w' = True,
        OF h1 h2 h3 h4 h5 h6 h7 upper_aapl h9]
    by blast
qed

text \<open>
  \<^verbatim>\<open>invalidateSymbol\<close>: every key that includes the symbol goes from both tiers; a
  key stays in both tiers when its storage key, namespace included, does not
  include the symbol.
\<close>

lemma str_includes_append: "str_includes s sub \<Longrightarrow> str_includes (p @ s) sub"
  by (induction p) auto

lemma replace_first_prefix: "replace_first p (p @ s) = s"
proof (cases "p @ s")
  case Nil
  then show ?thesis by simp
next
  case (Cons a l)
  have "prefix p (p @ s)" by simp
  then have "prefix p (a # l)" by (simp only: Cons)
  then have "replace_first p (a # l) = drop (length p) (a # l)" by simp
  then have "replace_first p (p @ s) = drop (length p) (p @ s)" by (simp only: Cons)
  then show ?thesis by simp
qed

lemma fold_delete_entry_maps:
  "map_of (memoryCache (fold delete_entry ks c)) k
     = (if k \<in> set ks then None else map_of (memoryCache c) k)"
  "map_of (localStorage (fold delete_entry ks c)) (getStorageKey k)
     = (if k \<in> set ks then None else map_of (localStorage c) (getStorageKey k))"
  by (induction ks arbitrary: c; simp add: delete_entry_maps)+

lemma key_in_keysToDelete:
  assumes "str_includes key symbol"
    and "map_of (memoryCache c) key \<noteq> None \<or> map_of (localStorage c) (getStorageKey key) \<noteq> None"
  shows "key \<in> set (keysToDelete symbol c)"
  using assms(2)
proof
  assume "map_of (memoryCache c) key \<noteq> None"
  then have "key \<in> fst ` set (memoryCache c)" by (auto simp: map_of_eq_None_iff)
  then show ?thesis using assms(1) by (auto simp: keysToDelete_def)
next
  assume "map_of (localStorage c) (getStorageKey key) \<noteq> None"
  then have "getStorageKey key \<in> fst ` set (localStorage c)" by (auto simp: map_of_eq_None_iff)
  moreover have "startsWith (getStorageKey key) ''av_cache_''"
    by (simp add: startsWith_def getStorageKey_def)
  moreover have "str_includes (getStorageKey key) symbol"
    unfolding getStorageKey_def using assms(1) by (rule str_includes_append)
  moreover have "replace_first ''av_cache_'' (getStorageKey key) = key"
    unfolding getStorageKey_def by (rule replace_first_prefix)
  ultimately have m: "getStorageKey key \<in> set (filter
      (\<lambda>key. startsWith key ''av_cache_'' \<and> str_includes key symbol) (map fst (localStorage c)))"
    and r: "replace_first ''av_cache_'' (getStorageKey key) = key"
    by simp_all
  from m have "replace_first ''av_cache_'' (getStorageKey key) \<in> replace_first ''av_cache_'' ` set (filter
      (\<lambda>key. startsWith key ''av_cache_'' \<and> str_includes key symbol) (map fst (localStorage c)))"
    by (rule imageI)
  then have "key \<in> set (map (replace_first ''av_cache_'') (filter
      (\<lambda>key. startsWith key ''av_cache_'' \<and> str_includes key symbol) (map fst (localStorage c))))"
    by (simp only: r set_map)
  then show ?thesis by (simp only: keysToDelete_def set_append Un_iff) simp
qed

lemma invalidateSymbol_removes:
  assumes "str_includes key symbol"
  shows "map_of (memoryCache (invalidateSymbol symbol c)) key = None"
    and "map_of (localStorage (invalidateSymbol symbol c)) (getStorageKey key) = None"
proof -
  show "map_of (memoryCache (invalidateSymbol symbol c)) key = None"
  proof (cases "map_of (memoryCache c) key = None")
    case True
    then show ?thesis by (simp add: invalidateSymbol_def fold_delete_entry_maps)
  next
    case False
    then have "key \<in> set (keysToDelete symbol c)" using assms by (intro key_in_keysToDelete) simp_all
    then show ?thesis by (simp add: invalidateSymbol_def fold_delete_entry_maps)
  qed
  show "map_of (localStorage (invalidateSymbol symbol c)) (getStorageKey key) = None"
  proof (cases "map_of (localStorage c) (getStorageKey key) = None")
    case True
    then show ?thesis by (simp add: invalidateSymbol_def fold_delete_entry_maps)
  next
    case False
    then have "key \<in> set (keysToDelete symbol c)" using assms by (intro key_in_keysToDelete) simp_all
    then show ?thesis by (simp add: invalidateSymbol_def fold_delete_entry_maps)
  qed
qed

lemma invalidateSymbol_keeps:
  assumes "\<not> str_includes (getStorageKey key) symbol"
  shows "map_of (memoryCache (invalidateSymbol symbol c)) key = map_of (memoryCache c) key"
    and "map_of (localStorage (invalidateSymbol symbol c)) (getStorageKey key)
           = map_of (localStorage c) (getStorageKey key)"
proof -
  have n: "\<not> str_includes key symbol"
    using assms str_includes_append [of key symbol "''av_cache_''"] by (auto simp: getStorageKey_def)
  have "key \<notin> set (keysToDelete symbol c)"
  proof
    assume "key \<in> set (keysToDelete symbol c)"
    then consider "str_includes key symbol"
      | sk where "startsWith sk ''av_cache_''" "str_includes sk symbol"
          "replace_first ''av_cache_'' sk = key"
      by (auto simp: keysToDelete_def)
    then show False
    proof cases
      case 1
      then show ?thesis using n by simp
    next
      case 2
      obtain k' where k': "sk = ''av_cache_'' @ k'"
        using 2(1) unfolding startsWith_def by (auto elim: prefixE)
      have "replace_first ''av_cache_'' sk = k'" unfolding k' by (rule replace_first_prefix)
      then have "sk = getStorageKey key" using 2(3) k' by (simp add: getStorageKey_def)
      then show ?thesis using 2(2) assms by simp
    qed
  qed
  then show "map_of (memoryCache (invalidateSymbol symbol c)) key = map_of (memoryCache c) key"
    and "map_of (localStorage (invalidateSymbol symbol c)) (getStorageKey key)
           = map_of (localStorage c) (getStorageKey key)"
    by (simp_all add: invalidateSymbol_def fold_delete_entry_maps)
qed

text \<open>
  C7, where the code departs from it. The storage branch of \<^verbatim>\<open>invalidateSymbol\<close>
  tests \<^verbatim>\<open>includes\<close> on the storage key, namespace \<^verbatim>\<open>av_cache_\<close> included, where the
  memory branch tests the cache key: with the symbol \<^verbatim>\<open>cache\<close> the entry
  \<^verbatim>\<open>quote_AAPL\<close>, whose key does not include the symbol, is deleted from both
  tiers.
\<close>

theorem c7_invalidateSymbol_namespace_match:
  "\<not> str_includes ''quote_AAPL'' ''cache'' \<and>
   invalidateSymbol ''cache''
     \<lparr>memoryCache = [(''quote_AAPL'', \<lparr>data = (150::nat), timestamp = 1000, expiresAt = 61000\<rparr>)],
      localStorage = [(''av_cache_quote_AAPL'',
         StoredEntry \<lparr>data = 150, timestamp = 1000, expiresAt = 61000\<rparr>)]\<rparr>
   = \<lparr>memoryCache = [], localStorage = []\<rparr>"
  by (simp add: invalidateSymbol_def keysToDelete_def startsWith_def delete_entry_def getStorageKey_def)

end
